theory Spec2Isabelle
  imports
    Main
    "HOL-Library.Multiset"
    "HOL-Library.Char_ord"
    "HOL-Library.List_Lexorder"
    "HOL-Library.Product_Lexorder"
    "HOL-Library.Word"
begin

section \<open>The persisted store\<close>

text \<open>
  The schema of \<^verbatim>\<open>initSchema\<close>: table \<^verbatim>\<open>pdfs\<close> with primary key
  \<^verbatim>\<open>(path, page_num)\<close>, \<^verbatim>\<open>hash TEXT NOT NULL\<close>, a nullable \<^verbatim>\<open>content TEXT\<close> and
  \<^verbatim>\<open>last_scanned\<close>; the FTS5 table \<^verbatim>\<open>pdfs_fts(path, page_num, content_idx)\<close>; and the
  three triggers of \<^verbatim>\<open>createTriggers\<close>, each of which is either installed or not.
  Tables are row lists in insertion order. A timestamp is the value of
  \<^verbatim>\<open>CURRENT_TIMESTAMP\<close> when a statement runs; the model is given a clock. The model
  does not represent a missing table: every handle comes from \<^verbatim>\<open>New\<close>, whose
  \<^verbatim>\<open>initSchema\<close> creates both tables, and the \<^verbatim>\<open>DROP TABLE\<close> of a rebuild is followed
  by \<^verbatim>\<open>CREATE VIRTUAL TABLE\<close> in the same transaction, which together empty the table.
\<close>

type_synonym timestamp = nat

record page =
  path :: string
  page_num :: int
  hash :: string
  content :: "string option"
  last_scanned :: timestamp

record index_entry =
  fts_path :: string
  fts_page_num :: int
  content_idx :: "string option"

record store =
  pdfs :: "page list"
  pdfs_fts :: "index_entry list"
  pdfs_after_insert :: bool
  pdfs_after_delete :: bool
  pdfs_after_update_content :: bool

definition page_key :: "page \<Rightarrow> string \<times> int" where
  "page_key p = (path p, page_num p)"

definition entry_key :: "index_entry \<Rightarrow> string \<times> int" where
  "entry_key e = (fts_path e, fts_page_num e)"

text \<open>
  Every driver call whose error the source checks is a point where the engine may fail
  for a reason outside the program (I/O, lock, full disk). A fault oracle says which of
  them fail during one call of a store operation.
\<close>

datatype db_call =
    CreatePagesTable
  | Begin
  | ExecDelete
  | PrepareInsert
  | ExecInsert nat
  | Commit
  | DropTrigger nat
  | DropTable
  | CreateTable
  | CreateTrigger nat
  | QueryPages
  | PrepareFtsInsert
  | ExecFtsInsert nat
  | QueryStoredHash
  | QueryMatch

datatype error =
    DbError db_call
  | ConstraintViolation string int
  | HashError string
  | ExtractError string
  | QuerySyntaxError string

type_synonym faults = "db_call \<Rightarrow> bool"

definition no_faults :: faults where
  "no_faults = (\<lambda>c. False)"

subsection \<open>Triggers\<close>

text \<open>
  \<^verbatim>\<open>pdfs_after_insert\<close>: \<^verbatim>\<open>INSERT INTO pdfs_fts VALUES (new.path, new.page_num, new.content)\<close>.
\<close>

definition fire_after_insert :: "page \<Rightarrow> store \<Rightarrow> store" where
  "fire_after_insert new s =
     (if pdfs_after_insert s
      then s\<lparr>pdfs_fts := pdfs_fts s @
             [\<lparr>fts_path = path new, fts_page_num = page_num new, content_idx = content new\<rparr>]\<rparr>
      else s)"

text \<open>
  \<^verbatim>\<open>pdfs_after_delete\<close>:
  \<^verbatim>\<open>DELETE FROM pdfs_fts WHERE path = old.path AND page_num = old.page_num\<close>.
\<close>

definition fire_after_delete :: "page \<Rightarrow> store \<Rightarrow> store" where
  "fire_after_delete old s =
     (if pdfs_after_delete s
      then s\<lparr>pdfs_fts := filter (\<lambda>e. entry_key e \<noteq> page_key old) (pdfs_fts s)\<rparr>
      else s)"

text \<open>
  \<^verbatim>\<open>pdfs_after_update_content\<close>, \<^verbatim>\<open>WHEN new.content IS NOT old.content\<close>:
  \<^verbatim>\<open>UPDATE pdfs_fts SET content_idx = new.content WHERE path = new.path AND page_num = new.page_num\<close>.
\<close>

definition fire_after_update_content :: "page \<Rightarrow> page \<Rightarrow> store \<Rightarrow> store" where
  "fire_after_update_content old new s =
     (if pdfs_after_update_content s \<and> content new \<noteq> content old
      then s\<lparr>pdfs_fts := map (\<lambda>e. if entry_key e = page_key new
                                   then e\<lparr>content_idx := content new\<rparr> else e) (pdfs_fts s)\<rparr>
      else s)"

subsection \<open>Statements on the page table\<close>

text \<open>\<^verbatim>\<open>DELETE FROM pdfs WHERE path = ?\<close>; the delete trigger fires once per deleted row.\<close>

definition delete_pages :: "string \<Rightarrow> store \<Rightarrow> store" where
  "delete_pages fp s =
     fold fire_after_delete (filter (\<lambda>p. path p = fp) (pdfs s))
       (s\<lparr>pdfs := filter (\<lambda>p. path p \<noteq> fp) (pdfs s)\<rparr>)"

text \<open>
  \<^verbatim>\<open>INSERT INTO pdfs (path, page_num, hash, content, last_scanned) VALUES (...)\<close>: refused
  when the primary key is taken, otherwise the row is appended and the insert trigger fires.
\<close>

definition insert_page :: "page \<Rightarrow> store \<Rightarrow> error + store" where
  "insert_page p s =
     (if list_ex (\<lambda>q. page_key q = page_key p) (pdfs s)
      then Inl (ConstraintViolation (path p) (page_num p))
      else Inr (fire_after_insert p (s\<lparr>pdfs := pdfs s @ [p]\<rparr>)))"

text \<open>
  \<^verbatim>\<open>UPDATE pdfs SET content = ? WHERE path = ? AND page_num = ?\<close>: no operation of the
  program issues it, but the third trigger is written for it.
\<close>

definition update_content :: "string \<times> int \<Rightarrow> string option \<Rightarrow> store \<Rightarrow> store" where
  "update_content k c s =
     fold (\<lambda>old. fire_after_update_content old (old\<lparr>content := c\<rparr>))
       (filter (\<lambda>p. page_key p = k) (pdfs s))
       (s\<lparr>pdfs := map (\<lambda>p. if page_key p = k then p\<lparr>content := c\<rparr> else p) (pdfs s)\<rparr>)"

section \<open>ContentStore\<close>

text \<open>
  \<^verbatim>\<open>createFTSTable\<close> (\<^verbatim>\<open>CREATE VIRTUAL TABLE IF NOT EXISTS\<close>) and \<^verbatim>\<open>createTriggers\<close> (three
  \<^verbatim>\<open>CREATE TRIGGER IF NOT EXISTS\<close>, stopping at the first that fails). Only the result of a
  run without error is kept: \<^verbatim>\<open>New\<close> returns no handle when \<^verbatim>\<open>initSchema\<close> fails, and a
  rebuild rolls back.
\<close>

definition createFTSTable :: "faults \<Rightarrow> store \<Rightarrow> error + store" where
  "createFTSTable flt s = (if flt CreateTable then Inl (DbError CreateTable) else Inr s)"

definition createTriggers :: "faults \<Rightarrow> store \<Rightarrow> error + store" where
  "createTriggers flt s =
     (if flt (CreateTrigger 0) then Inl (DbError (CreateTrigger 0))
      else if flt (CreateTrigger 1) then Inl (DbError (CreateTrigger 1))
      else if flt (CreateTrigger 2) then Inl (DbError (CreateTrigger 2))
      else Inr (s\<lparr>pdfs_after_insert := True, pdfs_after_delete := True,
                  pdfs_after_update_content := True\<rparr>))"

definition initSchema :: "faults \<Rightarrow> store \<Rightarrow> error + store" where
  "initSchema flt s =
     (if flt CreatePagesTable then Inl (DbError CreatePagesTable)
      else case createFTSTable flt s of
             Inl e \<Rightarrow> Inl e
           | Inr s1 \<Rightarrow> createTriggers flt s1)"

text \<open>A database file that has just been created, and \<^verbatim>\<open>New\<close> on it.\<close>

definition empty_store :: store where
  "empty_store = \<lparr>pdfs = [], pdfs_fts = [], pdfs_after_insert = False,
                  pdfs_after_delete = False, pdfs_after_update_content = False\<rparr>"

definition New :: "faults \<Rightarrow> error + store" where
  "New flt = initSchema flt empty_store"

definition fresh_store :: store where
  "fresh_store = \<lparr>pdfs = [], pdfs_fts = [], pdfs_after_insert = True,
                  pdfs_after_delete = True, pdfs_after_update_content = True\<rparr>"

text \<open>
  \<^verbatim>\<open>GetStoredHash\<close>: \<^verbatim>\<open>SELECT hash FROM pdfs WHERE path = ? LIMIT 1\<close>; \<^verbatim>\<open>sql.ErrNoRows\<close> is
  turned into the empty string with no error, any other error is returned.
\<close>

definition GetStoredHash :: "faults \<Rightarrow> string \<Rightarrow> store \<Rightarrow> error + string" where
  "GetStoredHash flt filePath s =
     (if flt QueryStoredHash then Inl (DbError QueryStoredHash)
      else case filter (\<lambda>p. path p = filePath) (pdfs s) of
             [] \<Rightarrow> Inr []
           | p # _ \<Rightarrow> Inr (hash p))"

text \<open>
  The fingerprint stored for a path, with absence made explicit: that of the first page the
  query finds, if there is one.
\<close>

definition stored_fingerprint :: "store \<Rightarrow> string \<Rightarrow> string option" where
  "stored_fingerprint s filePath =
     (case filter (\<lambda>p. path p = filePath) (pdfs s) of [] \<Rightarrow> None | p # ps \<Rightarrow> Some (hash p))"

text \<open>
  The loop of \<^verbatim>\<open>UpsertPDFData\<close> over \<^verbatim>\<open>pageContents\<close>: page \<^verbatim>\<open>pageNum+1\<close> for index
  \<^verbatim>\<open>pageNum\<close>, stopping at the first failed \<^verbatim>\<open>stmt.Exec\<close>. \<open>now pageNum\<close> is the value of
  \<^verbatim>\<open>CURRENT_TIMESTAMP\<close> when that insert runs.
\<close>

fun insert_pages ::
  "faults \<Rightarrow> (nat \<Rightarrow> timestamp) \<Rightarrow> string \<Rightarrow> string \<Rightarrow> nat \<Rightarrow> string list \<Rightarrow> store
     \<Rightarrow> error + store"
where
  "insert_pages flt now filePath h pageNum [] s = Inr s"
| "insert_pages flt now filePath h pageNum (c # cs) s =
     (if flt (ExecInsert pageNum) then Inl (DbError (ExecInsert pageNum))
      else case insert_page \<lparr>path = filePath, page_num = int pageNum + 1, hash = h,
                             content = Some c, last_scanned = now pageNum\<rparr> s of
             Inl e \<Rightarrow> Inl e
           | Inr s' \<Rightarrow> insert_pages flt now filePath h (Suc pageNum) cs s')"

text \<open>
  \<^verbatim>\<open>UpsertPDFData\<close>. The statements run on the transaction's working copy \<open>tx\<close>; the
  deferred \<^verbatim>\<open>tx.Rollback()\<close> discards it on every error return, and a failed \<^verbatim>\<open>Commit\<close>
  ends the transaction without applying it. The result is the returned error (\<open>None\<close> for
  \<^verbatim>\<open>nil\<close>) and the store after the call.
\<close>

definition UpsertPDFData ::
  "faults \<Rightarrow> (nat \<Rightarrow> timestamp) \<Rightarrow> string \<Rightarrow> string \<Rightarrow> string list \<Rightarrow> store
     \<Rightarrow> error option \<times> store"
where
  "UpsertPDFData flt now filePath h pageContents s =
     (if flt Begin then (Some (DbError Begin), s)
      else let tx = s in
        if flt ExecDelete then (Some (DbError ExecDelete), s)
        else let tx = delete_pages filePath tx in
          if flt PrepareInsert then (Some (DbError PrepareInsert), s)
          else case insert_pages flt now filePath h 0 pageContents tx of
                 Inl e \<Rightarrow> (Some e, s)
               | Inr tx \<Rightarrow>
                   if flt Commit then (Some (DbError Commit), s) else (None, tx))"

text \<open>The rows a successful call inserts: one per entry, numbered from \<open>k + 1\<close>.\<close>

fun new_pages :: "(nat \<Rightarrow> timestamp) \<Rightarrow> string \<Rightarrow> string \<Rightarrow> nat \<Rightarrow> string list \<Rightarrow> page list"
where
  "new_pages now filePath h k [] = []"
| "new_pages now filePath h k (c # cs) =
     \<lparr>path = filePath, page_num = int k + 1, hash = h, content = Some c,
        last_scanned = now k\<rparr>
       # new_pages now filePath h (Suc k) cs"

text \<open>The driver calls one run of \<^verbatim>\<open>UpsertPDFData\<close> over \<open>n\<close> pages can make.\<close>

definition upsert_fault :: "faults \<Rightarrow> nat \<Rightarrow> bool" where
  "upsert_fault flt n \<longleftrightarrow>
     flt Begin \<or> flt ExecDelete \<or> flt PrepareInsert \<or> list_ex (\<lambda>i. flt (ExecInsert i)) [0..<n]
       \<or> flt Commit"

section \<open>IndexSynchronizer\<close>

text \<open>The index entry that mirrors a page.\<close>

definition entry_of :: "page \<Rightarrow> index_entry" where
  "entry_of p = \<lparr>fts_path = path p, fts_page_num = page_num p, content_idx = content p\<rparr>"

text \<open>The three \<^verbatim>\<open>DROP TRIGGER IF EXISTS\<close> of \<^verbatim>\<open>RebuildFTS\<close>, in order.\<close>

definition dropTriggers :: "faults \<Rightarrow> store \<Rightarrow> error + store" where
  "dropTriggers flt s =
     (if flt (DropTrigger 0) then Inl (DbError (DropTrigger 0))
      else if flt (DropTrigger 1) then Inl (DbError (DropTrigger 1))
      else if flt (DropTrigger 2) then Inl (DbError (DropTrigger 2))
      else Inr (s\<lparr>pdfs_after_insert := False, pdfs_after_delete := False,
                  pdfs_after_update_content := False\<rparr>))"

text \<open>
  The repopulation loop over the rows of \<^verbatim>\<open>SELECT path, page_num, content FROM pdfs\<close>.
  \<^verbatim>\<open>rows.Scan\<close> reads \<^verbatim>\<open>content\<close> into a Go \<^verbatim>\<open>string\<close>, which fails on \<^verbatim>\<open>NULL\<close>: the loop
  logs a warning and goes on to the next row. A failed insert returns the error. The
  cursor is taken to deliver every row (the source does not look at \<^verbatim>\<open>rows.Err()\<close>).
  \<open>k\<close> is the position of the row in the table.
\<close>

fun repopulate :: "faults \<Rightarrow> nat \<Rightarrow> page list \<Rightarrow> store \<Rightarrow> error + store" where
  "repopulate flt k [] s = Inr s"
| "repopulate flt k (p # rows) s =
     (case content p of
        None \<Rightarrow> repopulate flt (Suc k) rows s
      | Some c \<Rightarrow>
          if flt (ExecFtsInsert k) then Inl (DbError (ExecFtsInsert k))
          else repopulate flt (Suc k) rows
                 (s\<lparr>pdfs_fts := pdfs_fts s @
                      [\<lparr>fts_path = path p, fts_page_num = page_num p, content_idx = Some c\<rparr>]\<rparr>))"

text \<open>\<^verbatim>\<open>RebuildFTS\<close>, one transaction with the deferred rollback on every error return.\<close>

definition RebuildFTS :: "faults \<Rightarrow> store \<Rightarrow> error option \<times> store" where
  "RebuildFTS flt s =
     (if flt Begin then (Some (DbError Begin), s)
      else case dropTriggers flt s of
        Inl e \<Rightarrow> (Some e, s)
      | Inr tx \<Rightarrow>
          if flt DropTable then (Some (DbError DropTable), s)
          else let tx = tx\<lparr>pdfs_fts := []\<rparr> in
            case createFTSTable flt tx of
              Inl e \<Rightarrow> (Some e, s)
            | Inr tx \<Rightarrow>
                case createTriggers flt tx of
                  Inl e \<Rightarrow> (Some e, s)
                | Inr tx \<Rightarrow>
                    if flt QueryPages then (Some (DbError QueryPages), s)
                    else if flt PrepareFtsInsert then (Some (DbError PrepareFtsInsert), s)
                    else case repopulate flt 0 (pdfs tx) tx of
                           Inl e \<Rightarrow> (Some e, s)
                         | Inr tx \<Rightarrow>
                             if flt Commit then (Some (DbError Commit), s)
                             else (None, tx))"

text \<open>
  A history of the store: any sequence of calls of the two writing operations, each with
  its own fault oracle, started on the store \<^verbatim>\<open>New\<close> creates.
\<close>

datatype operation =
    Upsert faults "nat \<Rightarrow> timestamp" string string "string list"
  | Rebuild faults

fun apply_operation :: "operation \<Rightarrow> store \<Rightarrow> store" where
  "apply_operation (Upsert flt now filePath h pageContents) s =
     snd (UpsertPDFData flt now filePath h pageContents s)"
| "apply_operation (Rebuild flt) s = snd (RebuildFTS flt s)"

definition run :: "operation list \<Rightarrow> store \<Rightarrow> store" where
  "run ops s = fold apply_operation ops s"

text \<open>
  The bijection between pages and index entries, as the number of rows with a given key:
  every page has exactly one entry with its key, that entry has its content, and every
  entry has exactly one page with its key.
\<close>

definition in_sync :: "store \<Rightarrow> bool" where
  "in_sync s \<longleftrightarrow>
     list_all (\<lambda>p. length (filter (\<lambda>e. entry_key e = page_key p) (pdfs_fts s)) = 1
                 \<and> list_all (\<lambda>e. entry_key e \<noteq> page_key p \<or> content_idx e = content p)
                      (pdfs_fts s))
       (pdfs s)
     \<and> list_all (\<lambda>e. length (filter (\<lambda>p. page_key p = entry_key e) (pdfs s)) = 1) (pdfs_fts s)"

text \<open>
  The same, as an equation between tables: the primary key holds on the page table and
  the index holds exactly the mirror of each page, in any row order.
\<close>

definition mirrored :: "store \<Rightarrow> bool" where
  "mirrored s \<longleftrightarrow>
     distinct (map page_key (pdfs s)) \<and> mset (pdfs_fts s) = mset (map entry_of (pdfs s))"

definition triggers_installed :: "store \<Rightarrow> bool" where
  "triggers_installed s \<longleftrightarrow>
     pdfs_after_insert s \<and> pdfs_after_delete s \<and> pdfs_after_update_content s"

text \<open>No page has \<^verbatim>\<open>NULL\<close> content, so the rebuild can scan every row.\<close>

definition scannable :: "store \<Rightarrow> bool" where
  "scannable s \<longleftrightarrow> list_all (\<lambda>p. content p \<noteq> None) (pdfs s)"

text \<open>All pages of a path carry the same fingerprint.\<close>

definition single_fingerprint :: "store \<Rightarrow> bool" where
  "single_fingerprint s \<longleftrightarrow>
     list_all (\<lambda>p. list_all (\<lambda>q. path q \<noteq> path p \<or> hash q = hash p) (pdfs s)) (pdfs s)"

text \<open>The index a rebuild writes: the mirror of every page whose content scans.\<close>

definition rebuilt :: "store \<Rightarrow> store" where
  "rebuilt s =
     \<lparr>pdfs = pdfs s, pdfs_fts = map entry_of (filter (\<lambda>p. content p \<noteq> None) (pdfs s)),
        pdfs_after_insert = True, pdfs_after_delete = True,
        pdfs_after_update_content = True\<rparr>"

text \<open>The driver calls one run of \<^verbatim>\<open>RebuildFTS\<close> over the rows \<open>rows\<close> can make.\<close>

definition rebuild_fault :: "faults \<Rightarrow> page list \<Rightarrow> bool" where
  "rebuild_fault flt rows \<longleftrightarrow>
     flt Begin \<or> list_ex (\<lambda>i. flt (DropTrigger i)) [0..<3] \<or> flt DropTable \<or> flt CreateTable
       \<or> list_ex (\<lambda>i. flt (CreateTrigger i)) [0..<3] \<or> flt QueryPages \<or> flt PrepareFtsInsert
       \<or> list_ex (\<lambda>k. content (rows ! k) \<noteq> None \<and> flt (ExecFtsInsert k)) [0..<length rows]
       \<or> flt Commit"

section \<open>QueryEngine\<close>

text \<open>
  The FTS5 engine is outside the program; the queries hand it the query string verbatim.
  Its contract is a parameter: which query strings parse, which indexed texts a query
  matches, the \<^verbatim>\<open>snippet()\<close> function (column, start marker, end marker, ellipsis, token
  count, query, text), and the \<^verbatim>\<open>rank\<close> of an entry for a query within the index, in
  some linear order.
\<close>

record 'r fts5 =
  fts_valid :: "string \<Rightarrow> bool"
  fts_match :: "string \<Rightarrow> string \<Rightarrow> bool"
  fts_snippet :: "nat \<Rightarrow> string \<Rightarrow> string \<Rightarrow> string \<Rightarrow> nat \<Rightarrow> string \<Rightarrow> string \<Rightarrow> string"
  fts_rank :: "string \<Rightarrow> index_entry list \<Rightarrow> index_entry \<Rightarrow> 'r"

record search_row =
  r_path :: string
  r_page_num :: int
  r_snippet :: string
  r_last_scanned :: timestamp

record live_row =
  l_path :: string
  l_page_num :: int
  l_snippet :: string

text \<open>
  \<^verbatim>\<open>FROM pdfs_fts JOIN pdfs AS p ON pdfs_fts.path = p.path AND pdfs_fts.page_num = p.page_num
  WHERE pdfs_fts MATCH ?\<close>: the pairs of a matching entry and a page with its key. An
  entry whose text is \<^verbatim>\<open>NULL\<close> has no tokens and matches nothing.
\<close>

definition match_join :: "'r fts5 \<Rightarrow> string \<Rightarrow> store \<Rightarrow> (index_entry \<times> string \<times> page) list" where
  "match_join eng queryTerm s =
     concat (map (\<lambda>e. case content_idx e of
                         None \<Rightarrow> []
                       | Some t \<Rightarrow>
                           if fts_match eng queryTerm t
                           then map (\<lambda>p. (e, t, p))
                                  (filter (\<lambda>p. page_key p = entry_key e) (pdfs s))
                           else [])
               (pdfs_fts s))"

text \<open>\<^verbatim>\<open>LIMIT ?\<close>: a negative limit is no limit.\<close>

definition sql_limit :: "int \<Rightarrow> 'a list \<Rightarrow> 'a list" where
  "sql_limit n xs = (if n < 0 then xs else take (nat n) xs)"

text \<open>
  \<^verbatim>\<open>Search\<close>: \<^verbatim>\<open>snippet(pdfs_fts, 2, '[HL]', '[/HL]', '...', 25)\<close>,
  \<^verbatim>\<open>ORDER BY p.path, p.page_num LIMIT ?\<close>. Text compares bytewise, which is the
  lexicographic order of \<open>string\<close>.
\<close>

definition Search ::
  "'r fts5 \<Rightarrow> faults \<Rightarrow> string \<Rightarrow> int \<Rightarrow> store \<Rightarrow> error + search_row list"
where
  "Search eng flt queryTerm limit s =
     (if flt QueryMatch then Inl (DbError QueryMatch)
      else if \<not> fts_valid eng queryTerm then Inl (QuerySyntaxError queryTerm)
      else Inr (sql_limit limit
             (sort_key (\<lambda>r. (r_path r, r_page_num r))
                (map (\<lambda>(e, t, p).
                        \<lparr>r_path = path p, r_page_num = page_num p,
                           r_snippet = fts_snippet eng 2 ''[HL]'' ''[/HL]'' ''...'' 25 queryTerm t,
                           r_last_scanned = last_scanned p\<rparr>)
                   (match_join eng queryTerm s)))))"

text \<open>
  \<^verbatim>\<open>LiveSearch\<close>: \<^verbatim>\<open>nil, nil\<close> for the empty query (its caller reads \<^verbatim>\<open>nil\<close> rows as no
  results); otherwise \<^verbatim>\<open>snippet(pdfs_fts, 2, '>>>', '<<<', ' ... ', 15)\<close>,
  \<^verbatim>\<open>ORDER BY rank LIMIT ?\<close>. \<open>live_matches\<close> is the joined rows in the order and number
  returned, before the columns are selected.
\<close>

definition live_matches ::
  "('r::linorder) fts5 \<Rightarrow> string \<Rightarrow> int \<Rightarrow> store \<Rightarrow> (index_entry \<times> string \<times> page) list"
where
  "live_matches eng queryTerm limit s =
     sql_limit limit
       (sort_key (\<lambda>(e, t, p). fts_rank eng queryTerm (pdfs_fts s) e)
          (match_join eng queryTerm s))"

definition LiveSearch ::
  "('r::linorder) fts5 \<Rightarrow> faults \<Rightarrow> string \<Rightarrow> int \<Rightarrow> store \<Rightarrow> error + live_row list"
where
  "LiveSearch eng flt queryTerm limit s =
     (if queryTerm = [] then Inr []
      else if flt QueryMatch then Inl (DbError QueryMatch)
      else if \<not> fts_valid eng queryTerm then Inl (QuerySyntaxError queryTerm)
      else Inr (map (\<lambda>(e, t, p).
                      \<lparr>l_path = path p, l_page_num = page_num p,
                         l_snippet = fts_snippet eng 2 ''>>>'' ''<<<'' '' ... '' 15 queryTerm t\<rparr>)
                 (live_matches eng queryTerm limit s)))"

section \<open>ScanPipeline\<close>

text \<open>
  What a scan reads from outside the program: the SHA-1 digest of a file's bytes (or the
  error of opening or reading it), the document MuPDF opens for a path (or the error of
  opening it) as the raw text of each page or the error of extracting it, the text
  normalisation of \<^verbatim>\<open>CleanText\<close>, and, per document, the faults of its store calls and the
  clock of its inserts.
\<close>

record scan_env =
  sha1_file :: "string \<Rightarrow> error + 160 word"
  open_doc :: "string \<Rightarrow> error + (error + string) list"
  CleanText :: "string \<Rightarrow> string"
  db_faults :: "string \<Rightarrow> faults"
  clock :: "string \<Rightarrow> nat \<Rightarrow> timestamp"

text \<open>\<^verbatim>\<open>hex.EncodeToString\<close> of the 20 bytes of a digest: 40 lower-case hex digits.\<close>

definition hex_digit :: "nat \<Rightarrow> char" where
  "hex_digit n = ''0123456789abcdef'' ! (n mod 16)"

definition EncodeToString :: "160 word \<Rightarrow> string" where
  "EncodeToString w = map (\<lambda>i. hex_digit (unat (drop_bit (4 * (39 - i)) w))) [0..<40]"

definition HashFile :: "scan_env \<Rightarrow> string \<Rightarrow> error + string" where
  "HashFile env filePath =
     (case sha1_file env filePath of
        Inl e \<Rightarrow> Inl e
      | Inr digest \<Rightarrow> Inr (EncodeToString digest))"

text \<open>
  \<^verbatim>\<open>ExtractPagesText\<close>: a page whose extraction fails becomes the empty string, every other
  page its cleaned text; only a failure to open the document is an error.
\<close>

definition ExtractPagesText :: "scan_env \<Rightarrow> string \<Rightarrow> error + string list" where
  "ExtractPagesText env pdfPath =
     (case open_doc env pdfPath of
        Inl e \<Rightarrow> Inl e
      | Inr doc \<Rightarrow> Inr (map (\<lambda>page. case page of Inl e \<Rightarrow> [] | Inr text \<Rightarrow> CleanText env text) doc))"

record PDFFileInfo =
  Path :: string
  CurrentHash :: string
  StoredHash :: string
  NeedsUpdate :: bool

text \<open>
  \<^verbatim>\<open>checkHashes\<close>: a file whose hash or stored-hash lookup fails is reported and skipped;
  the others are selected when \<^verbatim>\<open>forceRescan || currentHash != storedHash\<close>. The returned
  error is always \<^verbatim>\<open>nil\<close>.
\<close>

fun checkHashes :: "scan_env \<Rightarrow> bool \<Rightarrow> store \<Rightarrow> string list \<Rightarrow> PDFFileInfo list" where
  "checkHashes env forceRescan s [] = []"
| "checkHashes env forceRescan s (file # pdfFiles) =
     (case HashFile env file of
        Inl e \<Rightarrow> checkHashes env forceRescan s pdfFiles
      | Inr currentHash \<Rightarrow>
          (case GetStoredHash (db_faults env file) file s of
             Inl e \<Rightarrow> checkHashes env forceRescan s pdfFiles
           | Inr storedHash \<Rightarrow>
               if forceRescan \<or> currentHash \<noteq> storedHash
               then \<lparr>Path = file, CurrentHash = currentHash, StoredHash = storedHash,
                      NeedsUpdate = True\<rparr> # checkHashes env forceRescan s pdfFiles
               else checkHashes env forceRescan s pdfFiles))"


text \<open>
  \<^verbatim>\<open>processPDFs\<close>: the loop state is the count of stored documents, the warnings written
  to standard error and the store. The function returns the count and a \<^verbatim>\<open>nil\<close> error.
\<close>

record scan_state =
  processedCount :: nat
  warnings :: "(string \<times> error) list"
  db :: store

definition process_one :: "scan_env \<Rightarrow> PDFFileInfo \<Rightarrow> scan_state \<Rightarrow> scan_state" where
  "process_one env fileInfo st =
     (case ExtractPagesText env (Path fileInfo) of
        Inl e \<Rightarrow> st\<lparr>warnings := warnings st @ [(Path fileInfo, e)]\<rparr>
      | Inr pageContents \<Rightarrow>
          (case UpsertPDFData (db_faults env (Path fileInfo)) (clock env (Path fileInfo))
                  (Path fileInfo) (CurrentHash fileInfo) pageContents (db st) of
             (Some e, s') \<Rightarrow> st\<lparr>warnings := warnings st @ [(Path fileInfo, e)], db := s'\<rparr>
           | (None, s') \<Rightarrow> st\<lparr>processedCount := Suc (processedCount st), db := s'\<rparr>))"

definition processPDFs ::
  "scan_env \<Rightarrow> PDFFileInfo list \<Rightarrow> store \<Rightarrow> (nat \<times> error option) \<times> scan_state"
where
  "processPDFs env filesToProcess s =
     (let st = fold (process_one env) filesToProcess
                 \<lparr>processedCount = 0, warnings = [], db = s\<rparr>
      in ((processedCount st, None), st))"

text \<open>A document the third phase stores: its extraction and every store call succeed.\<close>

definition stored_ok :: "scan_env \<Rightarrow> PDFFileInfo \<Rightarrow> bool" where
  "stored_ok env fileInfo =
     (case ExtractPagesText env (Path fileInfo) of
        Inl e \<Rightarrow> False
      | Inr pageContents \<Rightarrow>
          \<not> upsert_fault (db_faults env (Path fileInfo)) (length pageContents))"

text \<open>
  \<^verbatim>\<open>runScanCommand\<close> after the crawl has produced \<open>pdfFiles\<close>: the two early returns, then
  the third phase. The result is the returned error and the store.
\<close>

definition runScanCommand :: "scan_env \<Rightarrow> bool \<Rightarrow> string list \<Rightarrow> store \<Rightarrow> error option \<times> store"
where
  "runScanCommand env forceRescan pdfFiles s =
     (if pdfFiles = [] then (None, s)
      else let filesToProcess = checkHashes env forceRescan s pdfFiles in
        if filesToProcess = [] then (None, s)
        else case processPDFs env filesToProcess s of
               ((n, Some e), st) \<Rightarrow> (Some e, db st)
             | ((n, None), st) \<Rightarrow> (None, db st))"

section \<open>Concrete stores and environments\<close>

text \<open>
  The store of the spec's scenario B: one two-page document with fingerprint \<open>h1\<close>,
  scanned at time 1, with its two index entries and all triggers installed.
\<close>

definition scenario_B :: store where
  "scenario_B =
     \<lparr>pdfs = [\<lparr>path = ''a.pdf'', page_num = 1, hash = ''h1'', content = Some ''foo bar'',
                 last_scanned = 1\<rparr>,
              \<lparr>path = ''a.pdf'', page_num = 2, hash = ''h1'', content = Some ''baz qux'',
                 last_scanned = 1\<rparr>],
        pdfs_fts = [\<lparr>fts_path = ''a.pdf'', fts_page_num = 1, content_idx = Some ''foo bar''\<rparr>,
                    \<lparr>fts_path = ''a.pdf'', fts_page_num = 2, content_idx = Some ''baz qux''\<rparr>],
        pdfs_after_insert = True, pdfs_after_delete = True,
        pdfs_after_update_content = True\<rparr>"

text \<open>
  The store of the spec's scenario C: the same document after its fingerprint became \<open>h2\<close>
  and its pages changed, scanned at time 2.
\<close>

definition scenario_C :: store where
  "scenario_C =
     \<lparr>pdfs = [\<lparr>path = ''a.pdf'', page_num = 1, hash = ''h2'', content = Some ''foo bar baz'',
                 last_scanned = 2\<rparr>,
              \<lparr>path = ''a.pdf'', page_num = 2, hash = ''h2'', content = Some ''qux'',
                 last_scanned = 2\<rparr>],
        pdfs_fts = [\<lparr>fts_path = ''a.pdf'', fts_page_num = 1,
                      content_idx = Some ''foo bar baz''\<rparr>,
                    \<lparr>fts_path = ''a.pdf'', fts_page_num = 2, content_idx = Some ''qux''\<rparr>],
        pdfs_after_insert = True, pdfs_after_delete = True,
        pdfs_after_update_content = True\<rparr>"


text \<open>
  An engine for examples: every query is valid, a query matches the texts it is a prefix
  of, the snippet is the text between the two markers, and every entry has rank 0.
\<close>

definition prefix_engine :: "nat fts5" where
  "prefix_engine =
     \<lparr>fts_valid = (\<lambda>q. True),
        fts_match = (\<lambda>q t. take (length q) t = q),
        fts_snippet = (\<lambda>col start end ell n q t. start @ t @ end),
        fts_rank = (\<lambda>q idx e. 0)\<rparr>"

text \<open>
  A file system for examples: \<open>bad.pdf\<close> cannot be read, \<open>broken.pdf\<close> cannot be opened by
  the extractor, \<open>empty.pdf\<close> has no pages, the commit of \<open>locked.pdf\<close> fails, and every
  other document has the two pages of scenario B; every file has the zero digest.
\<close>

definition example_env :: scan_env where
  "example_env =
     \<lparr>sha1_file = (\<lambda>p. if p = ''bad.pdf'' then Inl (HashError p) else Inr 0),
        open_doc = (\<lambda>p. if p = ''broken.pdf'' then Inl (ExtractError p)
                         else if p = ''empty.pdf'' then Inr []
                         else Inr [Inr ''foo bar'', Inr ''baz qux'']),
        CleanText = (\<lambda>t. t),
        db_faults = (\<lambda>p. if p = ''locked.pdf'' then (\<lambda>c. c = Commit) else no_faults),
        clock = (\<lambda>p i. 1)\<rparr>"


section \<open>Properties of the store statements\<close>

lemma fold_fire_after_delete_pdfs [simp]:
  "pdfs (fold fire_after_delete ps s) = pdfs s"
  by (induction ps arbitrary: s) (simp_all add: fire_after_delete_def)

lemma fold_fire_after_delete_flags [simp]:
  "pdfs_after_insert (fold fire_after_delete ps s) = pdfs_after_insert s"
  "pdfs_after_delete (fold fire_after_delete ps s) = pdfs_after_delete s"
  "pdfs_after_update_content (fold fire_after_delete ps s) = pdfs_after_update_content s"
  by (induction ps arbitrary: s) (simp_all add: fire_after_delete_def)

lemma fold_fire_after_delete_fts:
  "pdfs_fts (fold fire_after_delete ps s) =
     (if pdfs_after_delete s
      then filter (\<lambda>e. entry_key e \<notin> page_key ` set ps) (pdfs_fts s)
      else pdfs_fts s)"
proof (induction ps arbitrary: s)
  case Nil
  then show ?case by simp
next
  case (Cons p ps)
  show ?case
    by (simp add: Cons.IH) (auto simp: fire_after_delete_def intro: filter_cong)
qed

lemma pdfs_delete_pages [simp]:
  "pdfs (delete_pages fp s) = filter (\<lambda>p. path p \<noteq> fp) (pdfs s)"
  by (simp add: delete_pages_def)

lemma flags_delete_pages [simp]:
  "pdfs_after_insert (delete_pages fp s) = pdfs_after_insert s"
  "pdfs_after_delete (delete_pages fp s) = pdfs_after_delete s"
  "pdfs_after_update_content (delete_pages fp s) = pdfs_after_update_content s"
  by (simp_all add: delete_pages_def)

lemma fts_delete_pages:
  "pdfs_fts (delete_pages fp s) =
     (if pdfs_after_delete s
      then filter (\<lambda>e. entry_key e \<notin> page_key ` {p \<in> set (pdfs s). path p = fp}) (pdfs_fts s)
      else pdfs_fts s)"
  by (simp add: delete_pages_def fold_fire_after_delete_fts)

lemma pdfs_fire_after_insert [simp]: "pdfs (fire_after_insert p s) = pdfs s"
  by (simp add: fire_after_insert_def)

lemma flags_fire_after_insert [simp]:
  "pdfs_after_insert (fire_after_insert p s) = pdfs_after_insert s"
  "pdfs_after_delete (fire_after_insert p s) = pdfs_after_delete s"
  "pdfs_after_update_content (fire_after_insert p s) = pdfs_after_update_content s"
  by (simp_all add: fire_after_insert_def)

lemma fts_fire_after_insert:
  "pdfs_fts (fire_after_insert p s) =
     (if pdfs_after_insert s then pdfs_fts s @ [entry_of p] else pdfs_fts s)"
  by (simp add: fire_after_insert_def entry_of_def)

lemma insert_page_fresh:
  "page_key p \<notin> page_key ` set (pdfs s) \<Longrightarrow>
     insert_page p s = Inr (fire_after_insert p (s\<lparr>pdfs := pdfs s @ [p]\<rparr>))"
  unfolding insert_page_def list_ex_iff by (simp add: image_iff) metis

text \<open>
  After the delete no page of the path is left, so the primary key of page \<open>k + 1\<close> is
  free when the loop reaches it: the inserts fail only through the engine.
\<close>

lemma insert_pages_ok:
  assumes "\<forall>p \<in> set (pdfs s). path p = fp \<longrightarrow> page_num p \<le> int k"
    and "\<forall>i < length cs. \<not> flt (ExecInsert (k + i))"
  shows "\<exists>s'. insert_pages flt now fp h k cs s = Inr s' \<and>
           pdfs s' = pdfs s @ new_pages now fp h k cs \<and>
           pdfs_fts s' = (if pdfs_after_insert s
                          then pdfs_fts s @ map entry_of (new_pages now fp h k cs)
                          else pdfs_fts s) \<and>
           pdfs_after_insert s' = pdfs_after_insert s \<and>
           pdfs_after_delete s' = pdfs_after_delete s \<and>
           pdfs_after_update_content s' = pdfs_after_update_content s"
  using assms
proof (induction cs arbitrary: k s)
  case Nil
  then show ?case by simp
next
  case (Cons c cs)
  let ?p = "\<lparr>path = fp, page_num = int k + 1, hash = h, content = Some c,
              last_scanned = now k\<rparr>"
  let ?s1 = "fire_after_insert ?p (s\<lparr>pdfs := pdfs s @ [?p]\<rparr>)"
  have fresh: "page_key ?p \<notin> page_key ` set (pdfs s)"
    using Cons.prems(1) by (force simp: page_key_def)
  have nf: "\<not> flt (ExecInsert k)" using Cons.prems(2) [rule_format, of 0] by simp
  have inv: "\<forall>p \<in> set (pdfs ?s1). path p = fp \<longrightarrow> page_num p \<le> int (Suc k)"
    using Cons.prems(1) by auto
  have nf': "\<forall>i < length cs. \<not> flt (ExecInsert (Suc k + i))"
    using Cons.prems(2) by auto
  from Cons.IH [OF inv nf'] obtain s' where s':
    "insert_pages flt now fp h (Suc k) cs ?s1 = Inr s'"
    "pdfs s' = pdfs ?s1 @ new_pages now fp h (Suc k) cs"
    "pdfs_fts s' = (if pdfs_after_insert ?s1
                    then pdfs_fts ?s1 @ map entry_of (new_pages now fp h (Suc k) cs)
                    else pdfs_fts ?s1)"
    "pdfs_after_insert s' = pdfs_after_insert ?s1"
    "pdfs_after_delete s' = pdfs_after_delete ?s1"
    "pdfs_after_update_content s' = pdfs_after_update_content ?s1"
    by blast
  have "insert_pages flt now fp h k (c # cs) s = Inr s'"
    by (simp add: nf insert_page_fresh [OF fresh] s'(1))
  moreover have "pdfs s' = pdfs s @ new_pages now fp h k (c # cs)"
    by (simp add: s'(2))
  moreover have "pdfs_fts s' = (if pdfs_after_insert s
                          then pdfs_fts s @ map entry_of (new_pages now fp h k (c # cs))
                          else pdfs_fts s)"
    by (simp add: s'(3) fts_fire_after_insert)
  ultimately show ?case using s'(4-6) by simp
qed

lemma insert_pages_fault:
  assumes "i < length cs" "flt (ExecInsert (k + i))"
  shows "\<exists>e. insert_pages flt now fp h k cs s = Inl e"
  using assms
proof (induction cs arbitrary: k s i)
  case Nil
  then show ?case by simp
next
  case (Cons c cs)
  show ?case
  proof (cases i)
    case 0
    then show ?thesis using Cons.prems by simp
  next
    case (Suc j)
    then have "j < length cs" "flt (ExecInsert (Suc k + j))" using Cons.prems by auto
    from Cons.IH [OF this] show ?thesis
      by (auto split: sum.splits)
  qed
qed

lemma new_pages_fields:
  "p \<in> set (new_pages now fp h k cs) \<Longrightarrow> path p = fp \<and> hash p = h \<and> content p \<noteq> None"
  by (induction cs arbitrary: k) auto

lemma filter_new_pages_same [simp]:
  "filter (\<lambda>p. path p = fp) (new_pages now fp h k cs) = new_pages now fp h k cs"
  by (induction cs arbitrary: k) auto

lemma filter_new_pages_other [simp]:
  "filter (\<lambda>p. path p \<noteq> fp) (new_pages now fp h k cs) = []"
  by (induction cs arbitrary: k) auto

lemma map_page_num_new_pages:
  "map page_num (new_pages now fp h k cs) = map int [Suc k..<Suc k + length cs]"
proof (induction cs arbitrary: k)
  case Nil
  then show ?case by simp
next
  case (Cons c cs)
  have "[Suc k..<Suc k + length (c # cs)] = Suc k # [Suc (Suc k)..<Suc (Suc k) + length cs]"
    by (simp add: upt_rec)
  then show ?case by (simp add: Cons.IH)
qed

lemma map_last_scanned_new_pages:
  "map last_scanned (new_pages now fp h k cs) = map now [k..<k + length cs]"
proof (induction cs arbitrary: k)
  case Nil
  then show ?case by simp
next
  case (Cons c cs)
  have "[k..<k + length (c # cs)] = k # [Suc k..<Suc k + length cs]"
    by (simp add: upt_rec)
  then show ?case by (simp add: Cons.IH)
qed

lemma map_content_new_pages: "map content (new_pages now fp h k cs) = map Some cs"
  by (induction cs arbitrary: k) auto

lemma length_new_pages [simp]: "length (new_pages now fp h k cs) = length cs"
  by (induction cs arbitrary: k) auto

lemma distinct_new_pages: "distinct (map page_key (new_pages now fp h k cs))"
proof -
  have "map page_key (new_pages now fp h k cs)
          = map (\<lambda>n. (fp, n)) (map page_num (new_pages now fp h k cs))"
    by (induction cs arbitrary: k) (auto simp: page_key_def)
  moreover have "distinct (map int [Suc k..<Suc k + length cs])"
    by (simp add: distinct_map inj_on_def)
  ultimately show ?thesis
    by (simp add: map_page_num_new_pages distinct_map inj_on_def)
qed

lemma upsert_fault_iff:
  "upsert_fault flt n \<longleftrightarrow>
     flt Begin \<or> flt ExecDelete \<or> flt PrepareInsert \<or> (\<exists>i<n. flt (ExecInsert i)) \<or> flt Commit"
  by (auto simp: upsert_fault_def list_ex_iff)

lemma UpsertPDFData_fault:
  assumes "upsert_fault flt (length cs)"
  shows "\<exists>e. UpsertPDFData flt now fp h cs s = (Some e, s)"
proof (cases "flt Begin \<or> flt ExecDelete \<or> flt PrepareInsert")
  case True
  then show ?thesis by (auto simp: UpsertPDFData_def)
next
  case False
  show ?thesis
  proof (cases "\<exists>i<length cs. flt (ExecInsert i)")
    case True
    then obtain i where "i < length cs" "flt (ExecInsert (0 + i))" by auto
    from insert_pages_fault [of i cs flt 0 now fp h "delete_pages fp s", OF this]
    obtain e where "insert_pages flt now fp h 0 cs (delete_pages fp s) = Inl e" by blast
    then show ?thesis using False by (simp add: UpsertPDFData_def)
  next
    case F2: False
    with assms False have "flt Commit" by (auto simp: upsert_fault_iff)
    then show ?thesis using False
      by (auto simp: UpsertPDFData_def Let_def split: sum.splits)
  qed
qed

lemma UpsertPDFData_ok:
  assumes "\<not> upsert_fault flt (length cs)"
  shows "\<exists>s'. UpsertPDFData flt now fp h cs s = (None, s') \<and>
           pdfs s' = filter (\<lambda>p. path p \<noteq> fp) (pdfs s) @ new_pages now fp h 0 cs \<and>
           pdfs_fts s' = (if pdfs_after_insert s
                          then pdfs_fts (delete_pages fp s) @ map entry_of (new_pages now fp h 0 cs)
                          else pdfs_fts (delete_pages fp s)) \<and>
           pdfs_after_insert s' = pdfs_after_insert s \<and>
           pdfs_after_delete s' = pdfs_after_delete s \<and>
           pdfs_after_update_content s' = pdfs_after_update_content s"
proof -
  have nf: "\<not> flt Begin" "\<not> flt ExecDelete" "\<not> flt PrepareInsert" "\<not> flt Commit"
    "\<forall>i<length cs. \<not> flt (ExecInsert (0 + i))"
    using assms by (auto simp: upsert_fault_iff)
  have inv: "\<forall>p \<in> set (pdfs (delete_pages fp s)). path p = fp \<longrightarrow> page_num p \<le> int 0"
    by simp
  from insert_pages_ok [OF inv nf(5), of now h] obtain s' where
    s': "insert_pages flt now fp h 0 cs (delete_pages fp s) = Inr s'"
    "pdfs s' = pdfs (delete_pages fp s) @ new_pages now fp h 0 cs"
    "pdfs_fts s' = (if pdfs_after_insert (delete_pages fp s)
                    then pdfs_fts (delete_pages fp s) @ map entry_of (new_pages now fp h 0 cs)
                    else pdfs_fts (delete_pages fp s))"
    "pdfs_after_insert s' = pdfs_after_insert (delete_pages fp s)"
    "pdfs_after_delete s' = pdfs_after_delete (delete_pages fp s)"
    "pdfs_after_update_content s' = pdfs_after_update_content (delete_pages fp s)"
    by blast
  have "UpsertPDFData flt now fp h cs s = (None, s')"
    using nf(1-4) s'(1) by (simp add: UpsertPDFData_def)
  then show ?thesis using s'(2-6) by simp
qed

lemma UpsertPDFData_cases:
  obtains (fault) e where "upsert_fault flt (length cs)"
      "UpsertPDFData flt now fp h cs s = (Some e, s)"
  | (ok) s' where "\<not> upsert_fault flt (length cs)"
      "UpsertPDFData flt now fp h cs s = (None, s')"
      "pdfs s' = filter (\<lambda>p. path p \<noteq> fp) (pdfs s) @ new_pages now fp h 0 cs"
      "pdfs_fts s' = (if pdfs_after_insert s
                      then pdfs_fts (delete_pages fp s) @ map entry_of (new_pages now fp h 0 cs)
                      else pdfs_fts (delete_pages fp s))"
      "pdfs_after_insert s' = pdfs_after_insert s"
      "pdfs_after_delete s' = pdfs_after_delete s"
      "pdfs_after_update_content s' = pdfs_after_update_content s"
  using UpsertPDFData_fault [of flt cs now fp h s] UpsertPDFData_ok [of flt cs now fp h s]
  by blast

section \<open>Atomic replace\<close>

text \<open>
  Claim C1. \<^verbatim>\<open>UpsertPDFData\<close> is all-or-nothing. For every fault oracle, clock, path,
  fingerprint, page sequence and store: the call returns \<^verbatim>\<open>nil\<close> exactly when none of its
  driver calls (begin, delete, prepare, one insert per page, commit) fails; a successful call
  leaves the pages of every other path as they were, in front of exactly one page per entry
  of the sequence for this path, numbered \<open>1..n\<close> in order, with the entry as content, the
  time of its insert and the given fingerprint, so every earlier page of the path is gone;
  and a call that returns an error leaves the whole store (both tables and the triggers)
  exactly as it was before the call.
\<close>

theorem UpsertPDFData_all_or_nothing:
  "UpsertPDFData flt now fp h cs s = (r, s') \<Longrightarrow>
     (r = None \<longleftrightarrow> \<not> upsert_fault flt (length cs)) \<and>
     (r = None \<longrightarrow>
        pdfs s' = filter (\<lambda>p. path p \<noteq> fp) (pdfs s) @ filter (\<lambda>p. path p = fp) (pdfs s') \<and>
        map page_num (filter (\<lambda>p. path p = fp) (pdfs s')) = map int [1..<Suc (length cs)] \<and>
        map content (filter (\<lambda>p. path p = fp) (pdfs s')) = map Some cs \<and>
        map last_scanned (filter (\<lambda>p. path p = fp) (pdfs s')) = map now [0..<length cs] \<and>
        (\<forall>p \<in> set (pdfs s'). path p = fp \<longrightarrow> hash p = h)) \<and>
     (r \<noteq> None \<longrightarrow> s' = s)"
proof (rule UpsertPDFData_cases [of flt cs now fp h s])
  fix e
  assume "upsert_fault flt (length cs)" "UpsertPDFData flt now fp h cs s = (Some e, s)"
    and "UpsertPDFData flt now fp h cs s = (r, s')"
  then show ?thesis by auto
next
  fix t
  assume ok: "\<not> upsert_fault flt (length cs)"
    "UpsertPDFData flt now fp h cs s = (None, t)"
    "pdfs t = filter (\<lambda>p. path p \<noteq> fp) (pdfs s) @ new_pages now fp h 0 cs"
    and "UpsertPDFData flt now fp h cs s = (r, s')"
  with ok(2) have r: "r = None" and s': "s' = t" by auto
  have f: "filter (\<lambda>p. path p = fp) (pdfs t) = new_pages now fp h 0 cs"
    by (simp add: ok(3))
  have h: "\<forall>p \<in> set (pdfs t). path p = fp \<longrightarrow> hash p = h"
    using new_pages_fields [of _ now fp h 0 cs] by (auto simp: ok(3))
  show ?thesis
    using ok(1) h
    by (simp add: r s' f map_page_num_new_pages map_content_new_pages
        map_last_scanned_new_pages ok(3))
qed

theorem UpsertPDFData_all_or_nothing_witness:
  "UpsertPDFData (\<lambda>c. c = ExecInsert 1) (\<lambda>i. 2) ''a.pdf'' ''h2'' [''foo bar baz'', ''qux'']
       scenario_B
     = (Some (DbError (ExecInsert 1)), scenario_B) \<and>
   upsert_fault (\<lambda>c. c = ExecInsert 1) (length [''foo bar baz'', ''qux'']) \<and>
   UpsertPDFData no_faults (\<lambda>i. 2) ''a.pdf'' ''h2'' [''foo bar baz'', ''qux''] scenario_B
     = (None, scenario_C) \<and>
   map page_num (filter (\<lambda>p. path p = ''a.pdf'') (pdfs scenario_C)) = [1, 2]"
  using
    UpsertPDFData_all_or_nothing [of "\<lambda>c. c = ExecInsert 1" "\<lambda>i. 2" "''a.pdf''" "''h2''"
      "[''foo bar baz'', ''qux'']" scenario_B "Some (DbError (ExecInsert 1))" scenario_B]
    UpsertPDFData_all_or_nothing [of no_faults "\<lambda>i. 2" "''a.pdf''" "''h2''"
      "[''foo bar baz'', ''qux'']" scenario_B None scenario_C]
  by (simp add: UpsertPDFData_def scenario_B_def scenario_C_def delete_pages_def
      fire_after_delete_def insert_page_def fire_after_insert_def page_key_def entry_key_def
      upsert_fault_def no_faults_def)

section \<open>The rebuild\<close>

lemma repopulate_Inr:
  "repopulate flt k rows s = Inr s' \<Longrightarrow>
     s' = s\<lparr>pdfs_fts := pdfs_fts s @ map entry_of (filter (\<lambda>p. content p \<noteq> None) rows)\<rparr>"
proof (induction rows arbitrary: k s)
  case Nil
  then show ?case by simp
next
  case (Cons p rows)
  show ?case
  proof (cases "content p")
    case None
    with Cons.prems have "repopulate flt (Suc k) rows s = Inr s'" by simp
    from Cons.IH [OF this] show ?thesis using None by simp
  next
    case (Some c)
    let ?s1 = "s\<lparr>pdfs_fts := pdfs_fts s @
                 [\<lparr>fts_path = path p, fts_page_num = page_num p, content_idx = Some c\<rparr>]\<rparr>"
    from Cons.prems Some have "repopulate flt (Suc k) rows ?s1 = Inr s'"
      by (simp split: if_splits)
    from Cons.IH [OF this] show ?thesis using Some by (simp add: entry_of_def)
  qed
qed

lemma repopulate_ok:
  "\<forall>i < length rows. content (rows ! i) \<noteq> None \<longrightarrow> \<not> flt (ExecFtsInsert (k + i)) \<Longrightarrow>
     \<exists>s'. repopulate flt k rows s = Inr s'"
proof (induction rows arbitrary: k s)
  case Nil
  then show ?case by simp
next
  case (Cons p rows)
  have tl: "\<forall>i < length rows. content (rows ! i) \<noteq> None \<longrightarrow> \<not> flt (ExecFtsInsert (Suc k + i))"
    using Cons.prems by (metis Suc_less_eq add_Suc_right add_Suc length_Cons nth_Cons_Suc)
  have hd: "content p \<noteq> None \<longrightarrow> \<not> flt (ExecFtsInsert k)"
    using Cons.prems [rule_format, of 0] by simp
  show ?case
    using Cons.IH [OF tl] hd by (cases "content p") auto
qed

lemma repopulate_fault:
  "i < length rows \<Longrightarrow> content (rows ! i) \<noteq> None \<Longrightarrow> flt (ExecFtsInsert (k + i)) \<Longrightarrow>
     \<exists>e. repopulate flt k rows s = Inl e"
proof (induction rows arbitrary: k s i)
  case Nil
  then show ?case by simp
next
  case (Cons p rows)
  show ?case
  proof (cases i)
    case 0
    then show ?thesis using Cons.prems by (cases "content p") auto
  next
    case (Suc j)
    then have "j < length rows" "content (rows ! j) \<noteq> None" "flt (ExecFtsInsert (Suc k + j))"
      using Cons.prems by auto
    from Cons.IH [OF this] show ?thesis
      by (cases "content p") auto
  qed
qed

lemma rebuild_fault_iff:
  "rebuild_fault flt rows \<longleftrightarrow>
     flt Begin \<or> flt (DropTrigger 0) \<or> flt (DropTrigger 1) \<or> flt (DropTrigger 2) \<or> flt DropTable
       \<or> flt CreateTable \<or> flt (CreateTrigger 0) \<or> flt (CreateTrigger 1) \<or> flt (CreateTrigger 2)
       \<or> flt QueryPages \<or> flt PrepareFtsInsert
       \<or> (\<exists>k < length rows. content (rows ! k) \<noteq> None \<and> flt (ExecFtsInsert k))
       \<or> flt Commit"
proof -
  have "[0..<3] = [0, 1, 2]" by (simp add: upt_rec)
  then show ?thesis by (auto simp: rebuild_fault_def list_ex_iff)
qed

lemma RebuildFTS_fault:
  assumes "rebuild_fault flt (pdfs s)"
  shows "\<exists>e. RebuildFTS flt s = (Some e, s)"
proof (cases "\<exists>k < length (pdfs s). content (pdfs s ! k) \<noteq> None \<and> flt (ExecFtsInsert k)")
  case True
  then obtain k where k: "k < length (pdfs s)" "content (pdfs s ! k) \<noteq> None"
    "flt (ExecFtsInsert (0 + k))" by auto
  let ?tx = "s\<lparr>pdfs_fts := [], pdfs_after_insert := True, pdfs_after_delete := True,
               pdfs_after_update_content := True\<rparr>"
  obtain e where "repopulate flt 0 (pdfs s) ?tx = Inl e"
    using repopulate_fault [of k "pdfs s" flt 0 ?tx] k by blast
  then show ?thesis
    by (simp add: RebuildFTS_def dropTriggers_def createFTSTable_def createTriggers_def Let_def)
next
  case False
  with assms have "flt Begin \<or> flt (DropTrigger 0) \<or> flt (DropTrigger 1) \<or> flt (DropTrigger 2)
       \<or> flt DropTable \<or> flt CreateTable \<or> flt (CreateTrigger 0) \<or> flt (CreateTrigger 1)
       \<or> flt (CreateTrigger 2) \<or> flt QueryPages \<or> flt PrepareFtsInsert \<or> flt Commit"
    by (auto simp: rebuild_fault_iff)
  then show ?thesis
    by (auto simp: RebuildFTS_def dropTriggers_def createFTSTable_def createTriggers_def Let_def
        split: sum.splits)
qed

lemma RebuildFTS_ok:
  assumes "\<not> rebuild_fault flt (pdfs s)"
  shows "RebuildFTS flt s = (None, rebuilt s)"
proof -
  have nf: "\<not> flt Begin" "\<not> flt (DropTrigger 0)" "\<not> flt (DropTrigger 1)" "\<not> flt (DropTrigger 2)"
    "\<not> flt DropTable" "\<not> flt CreateTable" "\<not> flt (CreateTrigger 0)" "\<not> flt (CreateTrigger 1)"
    "\<not> flt (CreateTrigger 2)" "\<not> flt QueryPages" "\<not> flt PrepareFtsInsert" "\<not> flt Commit"
    and rows: "\<forall>i < length (pdfs s). content (pdfs s ! i) \<noteq> None \<longrightarrow> \<not> flt (ExecFtsInsert (0 + i))"
    using assms by (auto simp: rebuild_fault_iff)
  let ?tx = "s\<lparr>pdfs_fts := [], pdfs_after_insert := True, pdfs_after_delete := True,
               pdfs_after_update_content := True\<rparr>"
  from repopulate_ok [of "pdfs s" flt 0 ?tx, OF rows]
  obtain s' where s': "repopulate flt 0 (pdfs s) ?tx = Inr s'"
    by blast
  from repopulate_Inr [OF this] have "s' = rebuilt s"
    by (simp add: rebuilt_def)
  then show ?thesis
    using nf s'
    by (simp add: RebuildFTS_def dropTriggers_def createFTSTable_def createTriggers_def Let_def)
qed

lemma RebuildFTS_cases:
  obtains (fault) e where "rebuild_fault flt (pdfs s)" "RebuildFTS flt s = (Some e, s)"
  | (ok) "\<not> rebuild_fault flt (pdfs s)" "RebuildFTS flt s = (None, rebuilt s)"
  using RebuildFTS_fault [of flt s] RebuildFTS_ok [of flt s] by blast


lemma pdfs_rebuilt [simp]: "pdfs (rebuilt s) = pdfs s"
  by (simp add: rebuilt_def)

lemma rebuilt_scannable:
  "scannable s \<Longrightarrow> pdfs_fts (rebuilt s) = map entry_of (pdfs s)"
  by (simp add: rebuilt_def scannable_def list_all_iff)

section \<open>The mirror invariant\<close>

lemma entry_key_entry_of [simp]: "entry_key (entry_of p) = page_key p"
  by (simp add: entry_key_def entry_of_def page_key_def)

lemma content_idx_entry_of [simp]: "content_idx (entry_of p) = content p"
  by (simp add: entry_of_def)

lemma length_filter_key_distinct:
  "distinct (map f xs) \<Longrightarrow> x \<in> set xs \<Longrightarrow> length (filter (\<lambda>y. f y = f x) xs) = 1"
proof (induction xs)
  case Nil
  then show ?case by simp
next
  case (Cons a xs)
  show ?case
  proof (cases "f a = f x")
    case True
    then have "f x \<notin> f ` set xs" using Cons.prems(1) by simp
    then have "filter (\<lambda>y. f y = f x) xs = []"
      unfolding filter_empty_conv by (metis imageI)
    then show ?thesis using True by simp
  next
    case False
    then have "x \<in> set xs" using Cons.prems(2) by auto
    then show ?thesis using Cons False by simp
  qed
qed

lemma length_filter_image_mset:
  assumes "mset ys = mset (map g xs)"
  shows "length (filter P ys) = length (filter (\<lambda>x. P (g x)) xs)"
proof -
  have "length (filter P ys) = size (filter_mset P (mset ys))"
    by (metis mset_filter size_mset)
  also have "\<dots> = size (filter_mset P (image_mset g (mset xs)))"
    using assms by simp
  also have "\<dots> = size (image_mset g (filter_mset (\<lambda>x. P (g x)) (mset xs)))"
    by (simp add: image_mset_filter_mset_swap)
  also have "\<dots> = length (filter (\<lambda>x. P (g x)) xs)"
    by (metis mset_filter size_image_mset size_mset)
  finally show ?thesis .
qed

lemma mirrored_in_sync:
  assumes "mirrored s"
  shows "in_sync s"
proof -
  from assms have d: "distinct (map page_key (pdfs s))"
    and m: "mset (pdfs_fts s) = mset (map entry_of (pdfs s))"
    by (simp_all add: mirrored_def)
  have set_fts: "set (pdfs_fts s) = entry_of ` set (pdfs s)"
    using m by (metis set_map set_mset_mset)
  have inj: "inj_on page_key (set (pdfs s))"
    using d by (simp add: distinct_map)
  have cnt: "length (filter (\<lambda>e. entry_key e = k) (pdfs_fts s))
               = length (filter (\<lambda>p. page_key p = k) (pdfs s))" for k
    using length_filter_image_mset [OF m, of "\<lambda>e. entry_key e = k"] by simp
  have one: "length (filter (\<lambda>q. page_key q = page_key p) (pdfs s)) = 1"
    if "p \<in> set (pdfs s)" for p
    using length_filter_key_distinct [OF d that] .
  have a: "length (filter (\<lambda>e. entry_key e = page_key p) (pdfs_fts s)) = 1"
    if "p \<in> set (pdfs s)" for p
    using cnt [of "page_key p"] one [OF that] by simp
  have b: "entry_key e \<noteq> page_key p \<or> content_idx e = content p"
    if "p \<in> set (pdfs s)" "e \<in> set (pdfs_fts s)" for p e
  proof -
    from that(2) set_fts obtain q where q: "q \<in> set (pdfs s)" "e = entry_of q" by auto
    show ?thesis
    proof (cases "entry_key e = page_key p")
      case True
      then have "page_key q = page_key p" using q by simp
      then have "q = p" using inj q(1) that(1) by (auto dest: inj_onD)
      then show ?thesis using q by simp
    next
      case False
      then show ?thesis by simp
    qed
  qed
  have c: "length (filter (\<lambda>p. page_key p = entry_key e) (pdfs s)) = 1"
    if "e \<in> set (pdfs_fts s)" for e
  proof -
    from that set_fts obtain q where q: "q \<in> set (pdfs s)" "e = entry_of q" by auto
    then show ?thesis using one [OF q(1)] by simp
  qed
  show ?thesis
    unfolding in_sync_def list_all_iff using a b c by blast
qed

lemma mirrored_rebuilt: "distinct (map page_key (pdfs s)) \<Longrightarrow> scannable s \<Longrightarrow> mirrored (rebuilt s)"
  by (simp add: mirrored_def rebuilt_scannable)

lemma mirrored_upsert:
  assumes "mirrored s" "pdfs_after_insert s" "pdfs_after_delete s"
    and pd: "pdfs s' = filter (\<lambda>p. path p \<noteq> fp) (pdfs s) @ new_pages now fp h 0 cs"
    and ft: "pdfs_fts s' = (if pdfs_after_insert s
                then pdfs_fts (delete_pages fp s) @ map entry_of (new_pages now fp h 0 cs)
                else pdfs_fts (delete_pages fp s))"
  shows "mirrored s'"
proof -
  from assms(1) have d: "distinct (map page_key (pdfs s))"
    and m: "mset (pdfs_fts s) = mset (map entry_of (pdfs s))"
    by (simp_all add: mirrored_def)
  let ?del = "page_key ` {p \<in> set (pdfs s). path p = fp}"
  let ?new = "new_pages now fp h 0 cs"
  have keep: "entry_key (entry_of p) \<notin> ?del \<longleftrightarrow> path p \<noteq> fp" if "p \<in> set (pdfs s)" for p
    using that by (auto simp: page_key_def)
  have "mset (filter (\<lambda>e. entry_key e \<notin> ?del) (pdfs_fts s))
          = filter_mset (\<lambda>e. entry_key e \<notin> ?del) (image_mset entry_of (mset (pdfs s)))"
    using m by simp
  also have "\<dots> = image_mset entry_of
                     (filter_mset (\<lambda>p. entry_key (entry_of p) \<notin> ?del) (mset (pdfs s)))"
    by (rule image_mset_filter_mset_swap [symmetric])
  also have "filter_mset (\<lambda>p. entry_key (entry_of p) \<notin> ?del) (mset (pdfs s))
               = filter_mset (\<lambda>p. path p \<noteq> fp) (mset (pdfs s))"
    by (rule filter_mset_cong [OF refl]) (use keep in simp)
  finally have fl: "mset (filter (\<lambda>e. entry_key e \<notin> ?del) (pdfs_fts s))
                      = mset (map entry_of (filter (\<lambda>p. path p \<noteq> fp) (pdfs s)))"
    by simp
  have "pdfs_fts s' = filter (\<lambda>e. entry_key e \<notin> ?del) (pdfs_fts s) @ map entry_of ?new"
    using assms(2,3) ft by (simp add: fts_delete_pages)
  then have M: "mset (pdfs_fts s') = mset (map entry_of (pdfs s'))"
    using fl by (simp add: pd)
  have d1: "distinct (map page_key (filter (\<lambda>p. path p \<noteq> fp) (pdfs s)))"
    using d by (rule distinct_map_filter)
  have disj: "page_key ` {p \<in> set (pdfs s). path p \<noteq> fp} \<inter> page_key ` set ?new = {}"
  proof -
    have "path q = fp" if "q \<in> set ?new" for q
      using new_pages_fields [OF that] by simp
    then show ?thesis by (fastforce simp: page_key_def)
  qed
  have D: "distinct (map page_key (pdfs s'))"
    using d1 distinct_new_pages [of now fp h 0 cs] disj by (simp add: pd)
  show ?thesis using D M by (simp add: mirrored_def)
qed

lemma scannable_upsert:
  assumes "scannable s"
    and pd: "pdfs s' = filter (\<lambda>p. path p \<noteq> fp) (pdfs s) @ new_pages now fp h 0 cs"
  shows "scannable s'"
proof -
  have "content q \<noteq> None" if "q \<in> set (new_pages now fp h 0 cs)" for q
    using new_pages_fields [OF that] by simp
  then show ?thesis using assms(1) by (auto simp: scannable_def list_all_iff pd)
qed

lemma single_fingerprint_upsert:
  assumes "single_fingerprint s"
    and pd: "pdfs s' = filter (\<lambda>p. path p \<noteq> fp) (pdfs s) @ new_pages now fp h 0 cs"
  shows "single_fingerprint s'"
proof -
  have old: "path q \<noteq> path p \<or> hash q = hash p"
    if "p \<in> set (pdfs s)" "q \<in> set (pdfs s)" for p q
    using assms(1) that unfolding single_fingerprint_def list_all_iff by blast
  have new: "path q = fp \<and> hash q = h" if "q \<in> set (new_pages now fp h 0 cs)" for q
    using new_pages_fields [OF that] by simp
  have "path q \<noteq> path p \<or> hash q = hash p"
    if "p \<in> set (pdfs s')" "q \<in> set (pdfs s')" for p q
  proof -
    from that(1) consider "p \<in> set (pdfs s)" "path p \<noteq> fp" | "path p = fp" "hash p = h"
      using new by (auto simp: pd)
    moreover from that(2) consider "q \<in> set (pdfs s)" "path q \<noteq> fp" | "path q = fp" "hash q = h"
      using new by (auto simp: pd)
    ultimately show ?thesis using old by metis
  qed
  then show ?thesis unfolding single_fingerprint_def list_all_iff by blast
qed

text \<open>The invariant of every history, and its preservation by each operation.\<close>

lemma store_inv_upsert:
  assumes "triggers_installed s \<and> mirrored s \<and> scannable s \<and> single_fingerprint s"
  shows "triggers_installed (snd (UpsertPDFData flt now fp h cs s))
           \<and> mirrored (snd (UpsertPDFData flt now fp h cs s))
           \<and> scannable (snd (UpsertPDFData flt now fp h cs s))
           \<and> single_fingerprint (snd (UpsertPDFData flt now fp h cs s))"
proof (rule UpsertPDFData_cases [of flt cs now fp h s])
  fix e assume "UpsertPDFData flt now fp h cs s = (Some e, s)"
  then show ?thesis using assms by simp
next
  fix s'
  assume ok: "UpsertPDFData flt now fp h cs s = (None, s')"
    "pdfs s' = filter (\<lambda>p. path p \<noteq> fp) (pdfs s) @ new_pages now fp h 0 cs"
    "pdfs_fts s' = (if pdfs_after_insert s
                      then pdfs_fts (delete_pages fp s) @ map entry_of (new_pages now fp h 0 cs)
                      else pdfs_fts (delete_pages fp s))"
    "pdfs_after_insert s' = pdfs_after_insert s"
    "pdfs_after_delete s' = pdfs_after_delete s"
    "pdfs_after_update_content s' = pdfs_after_update_content s"
  have t: "pdfs_after_insert s" "pdfs_after_delete s" "pdfs_after_update_content s"
    using assms by (simp_all add: triggers_installed_def)
  have "triggers_installed s'" using t ok(4-6) by (simp add: triggers_installed_def)
  moreover have "mirrored s'"
    using mirrored_upsert [OF _ t(1,2) ok(2,3)] assms by simp
  moreover have "scannable s'" using scannable_upsert [OF _ ok(2)] assms by simp
  moreover have "single_fingerprint s'" using single_fingerprint_upsert [OF _ ok(2)] assms by simp
  ultimately show ?thesis by (simp add: ok(1))
qed

lemma store_inv_rebuild:
  assumes "triggers_installed s \<and> mirrored s \<and> scannable s \<and> single_fingerprint s"
  shows "triggers_installed (snd (RebuildFTS flt s))
           \<and> mirrored (snd (RebuildFTS flt s))
           \<and> scannable (snd (RebuildFTS flt s))
           \<and> single_fingerprint (snd (RebuildFTS flt s))"
proof (rule RebuildFTS_cases [of flt s])
  fix e assume "RebuildFTS flt s = (Some e, s)"
  then show ?thesis using assms by simp
next
  assume ok: "RebuildFTS flt s = (None, rebuilt s)"
  have "triggers_installed (rebuilt s)" by (simp add: triggers_installed_def rebuilt_def)
  moreover have "mirrored (rebuilt s)"
    using assms by (intro mirrored_rebuilt) (simp_all add: mirrored_def)
  moreover have "scannable (rebuilt s)" using assms by (simp add: scannable_def)
  moreover have "single_fingerprint (rebuilt s)" using assms by (simp add: single_fingerprint_def)
  ultimately show ?thesis by (simp add: ok)
qed

lemma store_inv_run:
  assumes "triggers_installed s \<and> mirrored s \<and> scannable s \<and> single_fingerprint s"
  shows "triggers_installed (run ops s) \<and> mirrored (run ops s) \<and> scannable (run ops s)
           \<and> single_fingerprint (run ops s)"
  using assms
proof (induction ops arbitrary: s)
  case Nil
  then show ?case by (simp add: run_def)
next
  case (Cons x ops)
  have step: "triggers_installed (apply_operation x s) \<and> mirrored (apply_operation x s)
                \<and> scannable (apply_operation x s) \<and> single_fingerprint (apply_operation x s)"
    using Cons.prems by (cases x) (simp_all add: store_inv_upsert store_inv_rebuild)
  from Cons.IH [OF step] show ?case by (simp add: run_def)
qed

lemma store_inv_fresh:
  "triggers_installed fresh_store \<and> mirrored fresh_store \<and> scannable fresh_store
     \<and> single_fingerprint fresh_store"
  by (simp add: triggers_installed_def mirrored_def scannable_def single_fingerprint_def
      fresh_store_def)

lemma New_fresh: "New no_faults = Inr fresh_store"
  by (simp add: New_def initSchema_def createFTSTable_def createTriggers_def no_faults_def
      empty_store_def fresh_store_def)

lemma count_one_distinct:
  "\<forall>x \<in> set xs. length (filter (\<lambda>y. f y = f x) xs) = 1 \<Longrightarrow> distinct (map f xs)"
proof (induction xs)
  case Nil
  then show ?case by simp
next
  case (Cons a xs)
  from Cons.prems have "length (filter (\<lambda>y. f y = f a) (a # xs)) = 1" by simp
  then have e: "filter (\<lambda>y. f y = f a) xs = []" by simp
  then have na: "f a \<notin> f ` set xs"
    unfolding filter_empty_conv by auto
  have "length (filter (\<lambda>y. f y = f x) xs) = 1" if "x \<in> set xs" for x
  proof -
    have "f a \<noteq> f x" using na that by auto
    moreover have "length (filter (\<lambda>y. f y = f x) (a # xs)) = 1"
      using Cons.prems that by simp
    ultimately show ?thesis by simp
  qed
  then have "distinct (map f xs)" using Cons.IH by simp
  then show ?case using na by simp
qed

lemma filter_length_one_ex: "length (filter P xs) = 1 \<Longrightarrow> \<exists>x \<in> set xs. P x"
  by (metis length_0_conv filter_False zero_neq_one)

lemma entry_eq_entry_of:
  "entry_key e = page_key p \<Longrightarrow> content_idx e = content p \<Longrightarrow> e = entry_of p"
  by (cases e) (simp add: entry_key_def page_key_def entry_of_def)

lemma in_sync_mirrored:
  assumes "in_sync s"
  shows "mirrored s"
proof -
  from assms have A1: "length (filter (\<lambda>e. entry_key e = page_key p) (pdfs_fts s)) = 1"
    and A2: "e \<in> set (pdfs_fts s) \<Longrightarrow> entry_key e = page_key p \<Longrightarrow> content_idx e = content p"
    if "p \<in> set (pdfs s)" for p e
    using that unfolding in_sync_def list_all_iff by blast+
  from assms have B: "length (filter (\<lambda>p. page_key p = entry_key e) (pdfs s)) = 1"
    if "e \<in> set (pdfs_fts s)" for e
    using that unfolding in_sync_def list_all_iff by blast
  have P: "length (filter (\<lambda>q. page_key q = page_key p) (pdfs s)) = 1"
    if "p \<in> set (pdfs s)" for p
  proof -
    from filter_length_one_ex [OF A1 [OF that]] obtain e where
      "e \<in> set (pdfs_fts s)" "entry_key e = page_key p" by blast
    then show ?thesis using B [of e] by simp
  qed
  have E: "length (filter (\<lambda>d. entry_key d = entry_key e) (pdfs_fts s)) = 1"
    if "e \<in> set (pdfs_fts s)" for e
  proof -
    from filter_length_one_ex [OF B [OF that]] obtain p where
      "p \<in> set (pdfs s)" "page_key p = entry_key e" by blast
    then show ?thesis using A1 [of p] by simp
  qed
  have dp: "distinct (map page_key (pdfs s))"
    using P by (intro count_one_distinct) blast
  have de: "distinct (map entry_key (pdfs_fts s))"
    using E by (intro count_one_distinct) blast
  have d1: "distinct (pdfs_fts s)" using de by (simp add: distinct_map)
  have "distinct (map entry_key (map entry_of (pdfs s)))"
    using dp by (simp add: comp_def)
  then have d2: "distinct (map entry_of (pdfs s))"
    using distinct_map by blast
  have "set (pdfs_fts s) = entry_of ` set (pdfs s)"
  proof (intro set_eqI iffI)
    fix e assume e: "e \<in> set (pdfs_fts s)"
    from filter_length_one_ex [OF B [OF e]] obtain p where
      p: "p \<in> set (pdfs s)" "page_key p = entry_key e" by blast
    then have "e = entry_of p" using A2 [OF p(1) e] by (simp add: entry_eq_entry_of)
    then show "e \<in> entry_of ` set (pdfs s)" using p(1) by simp
  next
    fix e assume "e \<in> entry_of ` set (pdfs s)"
    then obtain p where p: "p \<in> set (pdfs s)" "e = entry_of p" by auto
    from filter_length_one_ex [OF A1 [OF p(1)]] obtain d where
      d: "d \<in> set (pdfs_fts s)" "entry_key d = page_key p" by blast
    then have "d = entry_of p" using A2 [OF p(1) d] by (simp add: entry_eq_entry_of)
    then show "e \<in> set (pdfs_fts s)" using d(1) p(2) by simp
  qed
  then have "mset (pdfs_fts s) = mset (map entry_of (pdfs s))"
    using d1 d2 by (metis set_eq_iff_mset_eq_distinct set_map)
  then show ?thesis using dp by (simp add: mirrored_def)
qed

lemma in_sync_iff_mirrored: "in_sync s \<longleftrightarrow> mirrored s"
  using in_sync_mirrored mirrored_in_sync by blast

text \<open>
  The third propagation rule: an in-place update of a page's content, which no operation
  of the program issues, keeps the index the mirror of the pages while the update trigger
  is installed.
\<close>

lemma filter_key_distinct_cases:
  assumes "distinct (map f xs)"
  obtains "filter (\<lambda>x. f x = k) xs = []" "k \<notin> f ` set xs"
  | x where "filter (\<lambda>x. f x = k) xs = [x]" "x \<in> set xs" "f x = k"
proof (cases "k \<in> f ` set xs")
  case False
  then have "filter (\<lambda>x. f x = k) xs = []"
    unfolding filter_empty_conv by auto
  then show ?thesis using False that(1) by blast
next
  case True
  then obtain x where x: "x \<in> set xs" "f x = k" by auto
  have d: "distinct xs" using assms by (simp add: distinct_map)
  have inj: "inj_on f (set xs)" using assms by (simp add: distinct_map)
  have "distinct (filter (\<lambda>y. f y = k) xs)" using d by simp
  moreover have "set (filter (\<lambda>y. f y = k) xs) = {x}"
    using x inj by (auto dest: inj_onD)
  ultimately have "filter (\<lambda>y. f y = k) xs = [x]"
    by (metis distinct.simps(2) distinct_singleton empty_set list.simps(15) set_empty2
        card_distinct distinct_card length_Cons length_0_conv list.size(3) One_nat_def
        card.empty card_insert_disjoint empty_iff finite.emptyI length_Suc_conv singletonD
        list.set_intros(1))
  then show ?thesis using x that(2) by blast
qed

lemma mirrored_update_content:
  assumes "mirrored s" "pdfs_after_update_content s"
  shows "mirrored (update_content k c s)"
proof -
  from assms(1) have d: "distinct (map page_key (pdfs s))"
    and m: "mset (pdfs_fts s) = mset (map entry_of (pdfs s))"
    by (simp_all add: mirrored_def)
  let ?upd = "\<lambda>p. if page_key p = k then p\<lparr>content := c\<rparr> else p"
  let ?g = "\<lambda>e. if entry_key e = k then e\<lparr>content_idx := c\<rparr> else e"
  have key_upd: "page_key (?upd p) = page_key p" for p
    by (simp add: page_key_def)
  have dk: "distinct (map page_key (map ?upd (pdfs s)))"
    using d by (simp add: comp_def key_upd cong: map_cong)
  have mapped: "mset (map ?g (pdfs_fts s)) = mset (map entry_of (map ?upd (pdfs s)))"
  proof -
    have "mset (map ?g (pdfs_fts s)) = image_mset ?g (image_mset entry_of (mset (pdfs s)))"
      using m by simp
    also have "\<dots> = image_mset (\<lambda>p. ?g (entry_of p)) (mset (pdfs s))"
      by (simp only: multiset.map_comp comp_def)
    also have "\<dots> = image_mset (\<lambda>p. entry_of (?upd p)) (mset (pdfs s))"
      by (rule image_mset_cong) (simp add: entry_of_def entry_key_def page_key_def)
    also have "\<dots> = mset (map entry_of (map ?upd (pdfs s)))"
      by (simp only: mset_map multiset.map_comp comp_def)
    finally show ?thesis .
  qed
  show ?thesis
  proof (rule filter_key_distinct_cases [OF d, of k])
    assume e: "filter (\<lambda>p. page_key p = k) (pdfs s) = []" and nk: "k \<notin> page_key ` set (pdfs s)"
    have "map ?upd (pdfs s) = pdfs s"
      using nk by (intro map_idI) auto
    then show ?thesis using assms(1) by (simp add: update_content_def e mirrored_def)
  next
    fix p assume f: "filter (\<lambda>p. page_key p = k) (pdfs s) = [p]"
      and p: "p \<in> set (pdfs s)" "page_key p = k"
    show ?thesis
    proof (cases "c = content p")
      case True
      have inj: "inj_on page_key (set (pdfs s))" using d by (simp add: distinct_map)
      have "?upd q = q" if "q \<in> set (pdfs s)" for q
      proof (cases "page_key q = k")
        case True
        then have "q = p" using inj that p by (auto dest: inj_onD)
        then show ?thesis using \<open>c = content p\<close> by simp
      next
        case False
        then show ?thesis by simp
      qed
      then have me: "map ?upd (pdfs s) = pdfs s" by (intro map_idI) auto
      have nochange: "fire_after_update_content p (p\<lparr>content := c\<rparr>) t = t" for t
        using True by (simp add: fire_after_update_content_def)
      have "update_content k c s = s\<lparr>pdfs := map ?upd (pdfs s)\<rparr>"
        by (simp add: update_content_def f nochange)
      also have "\<dots> = s" by (simp only: me) simp
      finally show ?thesis using assms(1) by simp
    next
      case False
      have "pdfs (update_content k c s) = map ?upd (pdfs s)"
        by (simp add: update_content_def f fire_after_update_content_def)
      moreover have "page_key (p\<lparr>content := c\<rparr>) = k"
        using p(2) by (simp add: page_key_def)
      then have "pdfs_fts (update_content k c s) = map ?g (pdfs_fts s)"
        using False assms(2)
        by (simp add: update_content_def f fire_after_update_content_def)
      ultimately show ?thesis using dk mapped by (simp add: mirrored_def)
    qed
  qed
qed

section \<open>Queries\<close>

lemma length_sql_limit: "0 \<le> n \<Longrightarrow> length (sql_limit n xs) \<le> nat n"
  by (simp add: sql_limit_def)

lemma set_sql_limit: "set (sql_limit n xs) \<subseteq> set xs"
  by (auto simp: sql_limit_def dest: in_set_takeD)

lemma sorted_sql_limit: "sorted (map f xs) \<Longrightarrow> sorted (map f (sql_limit n xs))"
  by (simp add: sql_limit_def take_map [symmetric] sorted_wrt_take)

lemma match_join_iff:
  "(e, t, p) \<in> set (match_join eng q s) \<longleftrightarrow>
     e \<in> set (pdfs_fts s) \<and> p \<in> set (pdfs s) \<and> content_idx e = Some t \<and> fts_match eng q t
       \<and> page_key p = entry_key e"
proof
  assume "(e, t, p) \<in> set (match_join eng q s)"
  then show "e \<in> set (pdfs_fts s) \<and> p \<in> set (pdfs s) \<and> content_idx e = Some t
      \<and> fts_match eng q t \<and> page_key p = entry_key e"
    by (auto simp: match_join_def split: option.splits if_splits)
next
  assume a: "e \<in> set (pdfs_fts s) \<and> p \<in> set (pdfs s) \<and> content_idx e = Some t
      \<and> fts_match eng q t \<and> page_key p = entry_key e"
  then have "(e, t, p) \<in> set (case content_idx e of None \<Rightarrow> []
       | Some t \<Rightarrow> if fts_match eng q t
           then map (\<lambda>p. (e, t, p)) (filter (\<lambda>p. page_key p = entry_key e) (pdfs s))
           else [])"
    by simp
  then show "(e, t, p) \<in> set (match_join eng q s)"
    using a unfolding match_join_def set_concat set_map by blast
qed

lemma Search_Inr:
  "Search eng flt q n s = Inr rows \<longleftrightarrow>
     \<not> flt QueryMatch \<and> fts_valid eng q \<and>
     rows = sql_limit n (sort_key (\<lambda>r. (r_path r, r_page_num r))
              (map (\<lambda>(e, t, p).
                        \<lparr>r_path = path p, r_page_num = page_num p,
                           r_snippet = fts_snippet eng 2 ''[HL]'' ''[/HL]'' ''...'' 25 q t,
                           r_last_scanned = last_scanned p\<rparr>)
                   (match_join eng q s)))"
  by (auto simp: Search_def)

lemma sorted_live_matches:
  "sorted (map (\<lambda>(e, t, p). fts_rank eng q (pdfs_fts s) e) (live_matches eng q n s))"
  unfolding live_matches_def by (intro sorted_sql_limit sorted_sort_key)

lemma set_live_matches: "set (live_matches eng q n s) \<subseteq> set (match_join eng q s)"
  unfolding live_matches_def using set_sql_limit [of n] by fastforce

section \<open>Search does not depend on the row order of the index\<close>














section \<open>The scan pipeline\<close>

lemma length_EncodeToString [simp]: "length (EncodeToString w) = 40"
  by (simp add: EncodeToString_def)

lemma EncodeToString_nonempty [simp]: "EncodeToString w \<noteq> []" "[] \<noteq> EncodeToString w"
  using length_EncodeToString [of w] by fastforce+

lemma HashFile_length: "HashFile env fl = Inr cur \<Longrightarrow> length cur = 40"
  by (auto simp: HashFile_def split: sum.splits)

lemma HashFile_nonempty: "HashFile env fl = Inr cur \<Longrightarrow> cur \<noteq> []"
  using HashFile_length by fastforce

text \<open>The entry \<^verbatim>\<open>checkHashes\<close> makes for one file, if any.\<close>

lemma checkHashes_set:
  "x \<in> set (checkHashes env forced s pdfFiles) \<longleftrightarrow>
     (\<exists>fl \<in> set pdfFiles. \<exists>cur stored.
        HashFile env fl = Inr cur \<and>
        GetStoredHash (db_faults env fl) fl s = Inr stored \<and>
        (forced \<or> cur \<noteq> stored) \<and>
        x = \<lparr>Path = fl, CurrentHash = cur, StoredHash = stored, NeedsUpdate = True\<rparr>)"
proof (induction pdfFiles)
  case Nil
  then show ?case by simp
next
  case (Cons fl pdfFiles)
  show ?case
  proof (cases "HashFile env fl")
    case (Inl e)
    then show ?thesis using Cons.IH by auto
  next
    case cur: (Inr cur)
    show ?thesis
    proof (cases "GetStoredHash (db_faults env fl) fl s")
      case (Inl e)
      then show ?thesis using Cons.IH cur by auto
    next
      case (Inr stored)
      then show ?thesis using Cons.IH cur by auto
    qed
  qed
qed



text \<open>One step of the third phase, by the outcome for the document.\<close>

lemma process_one_ok:
  assumes "stored_ok env x"
  obtains pageContents s' where
    "ExtractPagesText env (Path x) = Inr pageContents"
    "UpsertPDFData (db_faults env (Path x)) (clock env (Path x)) (Path x) (CurrentHash x)
       pageContents (db st) = (None, s')"
    "pdfs s' = filter (\<lambda>p. path p \<noteq> Path x) (pdfs (db st))
                 @ new_pages (clock env (Path x)) (Path x) (CurrentHash x) 0 pageContents"
    "process_one env x st = st\<lparr>processedCount := Suc (processedCount st), db := s'\<rparr>"
proof -
  from assms obtain pcs where pcs: "ExtractPagesText env (Path x) = Inr pcs"
    "\<not> upsert_fault (db_faults env (Path x)) (length pcs)"
    by (auto simp: stored_ok_def split: sum.splits)
  from UpsertPDFData_ok [OF pcs(2), of "clock env (Path x)" "Path x" "CurrentHash x" "db st"]
  obtain s' where s': "UpsertPDFData (db_faults env (Path x)) (clock env (Path x)) (Path x)
       (CurrentHash x) pcs (db st) = (None, s')"
    "pdfs s' = filter (\<lambda>p. path p \<noteq> Path x) (pdfs (db st))
                 @ new_pages (clock env (Path x)) (Path x) (CurrentHash x) 0 pcs"
    by blast
  have "process_one env x st = st\<lparr>processedCount := Suc (processedCount st), db := s'\<rparr>"
    by (simp add: process_one_def pcs(1) s'(1))
  then show ?thesis using that pcs(1) s' by blast
qed

lemma process_one_failed:
  assumes "\<not> stored_ok env x"
  shows "\<exists>e. process_one env x st = st\<lparr>warnings := warnings st @ [(Path x, e)]\<rparr>"
proof (cases "ExtractPagesText env (Path x)")
  case (Inl e)
  then show ?thesis by (auto simp: process_one_def)
next
  case (Inr pcs)
  then have "upsert_fault (db_faults env (Path x)) (length pcs)"
    using assms by (simp add: stored_ok_def)
  from UpsertPDFData_fault [OF this, of "clock env (Path x)" "Path x" "CurrentHash x" "db st"]
  obtain e where "UpsertPDFData (db_faults env (Path x)) (clock env (Path x)) (Path x)
       (CurrentHash x) pcs (db st) = (Some e, db st)" by blast
  then show ?thesis by (auto simp: process_one_def Inr)
qed




section \<open>The stored fingerprint across a scan\<close>

lemma GetStoredHash_stored_fingerprint:
  "\<not> flt QueryStoredHash \<Longrightarrow>
     GetStoredHash flt fl s = Inr (case stored_fingerprint s fl of None \<Rightarrow> [] | Some h \<Rightarrow> h)"
  by (simp add: GetStoredHash_def stored_fingerprint_def split: list.splits)

lemma stored_fingerprint_other:
  assumes "pdfs s' = filter (\<lambda>p. path p \<noteq> fp) (pdfs s) @ new_pages now fp h 0 cs" "fl \<noteq> fp"
  shows "stored_fingerprint s' fl = stored_fingerprint s fl"
proof -
  have "filter (\<lambda>p. path p = fl) (new_pages now fp h 0 cs) = []"
    using new_pages_fields [of _ now fp h 0 cs] assms(2) by (auto simp: filter_empty_conv)
  moreover have "filter (\<lambda>p. path p = fl) (filter (\<lambda>p. path p \<noteq> fp) (pdfs s))
                   = filter (\<lambda>p. path p = fl) (pdfs s)"
    using assms(2) by (auto intro: filter_cong)
  ultimately show ?thesis by (simp add: stored_fingerprint_def assms(1))
qed

lemma stored_fingerprint_same:
  assumes "pdfs s' = filter (\<lambda>p. path p \<noteq> fp) (pdfs s) @ new_pages now fp h 0 cs"
  shows "stored_fingerprint s' fp = (if cs = [] then None else Some h)"
proof -
  have "filter (\<lambda>p. path p = fp) (pdfs s') = new_pages now fp h 0 cs"
    by (simp add: assms)
  then show ?thesis by (cases cs) (simp_all add: stored_fingerprint_def)
qed

lemma stored_ok_iff:
  "stored_ok env x \<longleftrightarrow>
     (\<exists>pcs. ExtractPagesText env (Path x) = Inr pcs
        \<and> \<not> upsert_fault (db_faults env (Path x)) (length pcs))"
  by (auto simp: stored_ok_def split: sum.splits)

lemma stored_fingerprint_process_one:
  assumes good: "ExtractPagesText env fl = Inr pcs" "pcs \<noteq> []"
    and x: "Path x = fl \<longrightarrow> CurrentHash x = cur"
    and q: "stored_fingerprint (db st) fl = Some cur"
  shows "stored_fingerprint (db (process_one env x st)) fl = Some cur"
proof (cases "stored_ok env x")
  case False
  from process_one_failed [OF False, of st] show ?thesis using q by auto
next
  case True
  from process_one_ok [OF True, of st] obtain pageContents s' where s':
    "ExtractPagesText env (Path x) = Inr pageContents"
    "pdfs s' = filter (\<lambda>p. path p \<noteq> Path x) (pdfs (db st))
                 @ new_pages (clock env (Path x)) (Path x) (CurrentHash x) 0 pageContents"
    "process_one env x st = st\<lparr>processedCount := Suc (processedCount st), db := s'\<rparr>"
    by metis
  show ?thesis
  proof (cases "Path x = fl")
    case True
    then have "pageContents = pcs" using s'(1) good(1) by simp
    then show ?thesis
      using stored_fingerprint_same [OF s'(2)] True x good(2) by (simp add: s'(3))
  next
    case False
    then show ?thesis
      using stored_fingerprint_other [OF s'(2), of fl] q by (simp add: s'(3))
  qed
qed

lemma stored_fingerprint_fold_preserved:
  assumes good: "ExtractPagesText env fl = Inr pcs" "pcs \<noteq> []"
    and xs: "\<forall>x \<in> set xs. Path x = fl \<longrightarrow> CurrentHash x = cur"
    and q: "stored_fingerprint (db st) fl = Some cur"
  shows "stored_fingerprint (db (fold (process_one env) xs st)) fl = Some cur"
  using xs q
proof (induction xs arbitrary: st)
  case Nil
  then show ?case by simp
next
  case (Cons x xs)
  have "stored_fingerprint (db (process_one env x st)) fl = Some cur"
    using stored_fingerprint_process_one [OF good _ Cons.prems(2), of x] Cons.prems(1) by simp
  then have "stored_fingerprint (db (fold (process_one env) xs (process_one env x st))) fl
               = Some cur"
    using Cons.IH Cons.prems(1) by simp
  then show ?case by simp
qed

lemma stored_fingerprint_fold_established:
  assumes good: "ExtractPagesText env fl = Inr pcs" "pcs \<noteq> []"
      "\<not> upsert_fault (db_faults env fl) (length pcs)"
    and xs: "\<forall>x \<in> set xs. Path x = fl \<longrightarrow> CurrentHash x = cur"
    and sel: "fl \<in> Path ` set xs"
  shows "stored_fingerprint (db (fold (process_one env) xs st)) fl = Some cur"
  using xs sel
proof (induction xs arbitrary: st)
  case Nil
  then show ?case by simp
next
  case (Cons x xs)
  show ?case
  proof (cases "Path x = fl")
    case True
    then have ok: "stored_ok env x" using good(1,3) by (simp add: stored_ok_iff)
    from process_one_ok [OF ok, of st] obtain pageContents s' where s':
      "ExtractPagesText env (Path x) = Inr pageContents"
      "pdfs s' = filter (\<lambda>p. path p \<noteq> Path x) (pdfs (db st))
                   @ new_pages (clock env (Path x)) (Path x) (CurrentHash x) 0 pageContents"
      "process_one env x st = st\<lparr>processedCount := Suc (processedCount st), db := s'\<rparr>"
      by metis
    have "pageContents = pcs" using s'(1) good(1) True by simp
    then have "stored_fingerprint (db (process_one env x st)) fl = Some cur"
      using stored_fingerprint_same [OF s'(2)] True Cons.prems(1) good(2) by (simp add: s'(3))
    from stored_fingerprint_fold_preserved [OF good(1,2) _ this, of xs] Cons.prems(1)
    show ?thesis by simp
  next
    case False
    then have "fl \<in> Path ` set xs" using Cons.prems(2) by auto
    then have "stored_fingerprint (db (fold (process_one env) xs (process_one env x st))) fl
                 = Some cur"
      using Cons.IH Cons.prems(1) by simp
    then show ?thesis by simp
  qed
qed

lemma runScanCommand_db:
  "snd (runScanCommand env forced pdfFiles s)
     = db (fold (process_one env) (checkHashes env forced s pdfFiles)
             \<lparr>processedCount = 0, warnings = [], db = s\<rparr>)"
  by (cases pdfFiles) (simp_all add: runScanCommand_def processPDFs_def Let_def)

lemma checkHashes_CurrentHash:
  "x \<in> set (checkHashes env forced s pdfFiles) \<Longrightarrow> HashFile env (Path x) = Inr (CurrentHash x)"
  unfolding checkHashes_set by auto

section \<open>Invariants of every history\<close>



text \<open>
  Claim C9. After any sequence of \<^verbatim>\<open>UpsertPDFData\<close> calls (and rebuilds, which leave the
  pages alone), all pages stored for the same path carry the same fingerprint, and
  \<^verbatim>\<open>GetStoredHash\<close>, which reads the first page the query finds for a path, returns the
  fingerprint of every page of that path unless the query itself fails.
\<close>

theorem single_fingerprint_invariant:
  "s = run ops fresh_store \<Longrightarrow>
     (\<forall>p \<in> set (pdfs s). \<forall>q \<in> set (pdfs s). path p = path q \<longrightarrow> hash p = hash q) \<and>
     (\<forall>p \<in> set (pdfs s).
        GetStoredHash flt (path p) s =
          (if flt QueryStoredHash then Inl (DbError QueryStoredHash) else Inr (hash p)))"
proof -
  assume s: "s = run ops fresh_store"
  from store_inv_run [OF store_inv_fresh, of ops]
  have "single_fingerprint s" by (simp add: s)
  then have same: "hash q = hash p"
    if "p \<in> set (pdfs s)" "q \<in> set (pdfs s)" "path q = path p" for p q
    using that unfolding single_fingerprint_def list_all_iff by blast
  have "GetStoredHash flt (path p) s =
          (if flt QueryStoredHash then Inl (DbError QueryStoredHash) else Inr (hash p))"
    if p: "p \<in> set (pdfs s)" for p
  proof (cases "filter (\<lambda>q. path q = path p) (pdfs s)")
    case Nil
    then show ?thesis using p by (auto simp: filter_empty_conv)
  next
    case (Cons q qs)
    then have "q \<in> set (filter (\<lambda>q. path q = path p) (pdfs s))" by simp
    then have "q \<in> set (pdfs s)" "path q = path p" by simp_all
    then have "hash q = hash p" using same p by blast
    then show ?thesis by (simp add: GetStoredHash_def Cons)
  qed
  then show ?thesis using same by metis
qed

theorem single_fingerprint_invariant_witness:
  "scenario_B =
     run [Upsert no_faults (\<lambda>i. 1) ''a.pdf'' ''h1'' [''foo bar'', ''baz qux'']] fresh_store \<and>
   map hash (pdfs scenario_B) = [''h1'', ''h1''] \<and>
   GetStoredHash no_faults ''a.pdf'' scenario_B = Inr ''h1''"
  using single_fingerprint_invariant [of scenario_B
      "[Upsert no_faults (\<lambda>i. 1) ''a.pdf'' ''h1'' [''foo bar'', ''baz qux'']]" no_faults]
  by (simp add: run_def UpsertPDFData_def no_faults_def fresh_store_def scenario_B_def
      delete_pages_def fire_after_delete_def insert_page_def fire_after_insert_def
      page_key_def entry_key_def GetStoredHash_def)

section \<open>Query contracts\<close>

text \<open>
  Claim C6. For every query and every limit \<open>N \<ge> 0\<close>, \<^verbatim>\<open>Search\<close> fails only when the query
  call fails or the engine rejects the query; otherwise it returns at most \<open>N\<close> rows, sorted
  by path and then page number, and each row is the path, page number and last-scanned time
  of a page joined with a matching index entry of the same key, with the snippet the engine
  builds from that entry's text with the markers \<^verbatim>\<open>[HL]\<close> and \<^verbatim>\<open>[/HL]\<close>, the ellipsis \<^verbatim>\<open>...\<close>
  and 25 tokens.
\<close>

theorem Search_contract:
  "0 \<le> N \<Longrightarrow>
     (case Search eng flt q N s of
        Inl err \<Rightarrow> flt QueryMatch \<or> \<not> fts_valid eng q
      | Inr rows \<Rightarrow>
          \<not> flt QueryMatch \<and> fts_valid eng q \<and>
          sorted (map (\<lambda>r. (r_path r, r_page_num r)) rows) \<and>
          length rows \<le> nat N \<and>
          (\<forall>r \<in> set rows. \<exists>e \<in> set (pdfs_fts s). \<exists>p \<in> set (pdfs s). \<exists>t.
              content_idx e = Some t \<and> fts_match eng q t \<and> page_key p = entry_key e \<and>
              r = \<lparr>r_path = path p, r_page_num = page_num p,
                    r_snippet = fts_snippet eng 2 ''[HL]'' ''[/HL]'' ''...'' 25 q t,
                    r_last_scanned = last_scanned p\<rparr>))"
proof (cases "Search eng flt q N s")
  case (Inl err)
  then show ?thesis by (auto simp: Search_def split: if_splits)
next
  case (Inr rows)
  assume N: "0 \<le> N"
  let ?mk = "\<lambda>(e, t, p). \<lparr>r_path = path p, r_page_num = page_num p,
                r_snippet = fts_snippet eng 2 ''[HL]'' ''[/HL]'' ''...'' 25 q t,
                r_last_scanned = last_scanned p\<rparr>"
  let ?all = "sort_key (\<lambda>r. (r_path r, r_page_num r)) (map ?mk (match_join eng q s))"
  from Inr have ok: "\<not> flt QueryMatch" "fts_valid eng q" and rows: "rows = sql_limit N ?all"
    by (simp_all add: Search_Inr)
  have srt: "sorted (map (\<lambda>r. (r_path r, r_page_num r)) rows)"
    unfolding rows by (intro sorted_sql_limit sorted_sort_key)
  have len: "length rows \<le> nat N"
    unfolding rows using N by (rule length_sql_limit)
  have src: "\<exists>e \<in> set (pdfs_fts s). \<exists>p \<in> set (pdfs s). \<exists>t.
              content_idx e = Some t \<and> fts_match eng q t \<and> page_key p = entry_key e \<and>
              r = \<lparr>r_path = path p, r_page_num = page_num p,
                    r_snippet = fts_snippet eng 2 ''[HL]'' ''[/HL]'' ''...'' 25 q t,
                    r_last_scanned = last_scanned p\<rparr>"
    if "r \<in> set rows" for r
  proof -
    from that have "r \<in> set ?all" using set_sql_limit [of N ?all] by (auto simp: rows)
    then obtain e t p where "(e, t, p) \<in> set (match_join eng q s)" "r = ?mk (e, t, p)"
      by auto
    then show ?thesis unfolding match_join_iff by auto
  qed
  show ?thesis using ok srt len src by (simp add: Inr)
qed

theorem Search_contract_witness:
  "(0::int) \<le> 5 \<and>
   Search prefix_engine no_faults ''baz'' 5 scenario_B =
     Inr [\<lparr>r_path = ''a.pdf'', r_page_num = 2, r_snippet = ''[HL]baz qux[/HL]'',
            r_last_scanned = 1\<rparr>]"
  using Search_contract [where N = 5 and eng = prefix_engine and flt = no_faults
      and q = "''baz''" and s = scenario_B]
  by (simp add: Search_def match_join_def sql_limit_def prefix_engine_def no_faults_def
      scenario_B_def page_key_def entry_key_def)

text \<open>
  Claim C7. For every limit, store and fault oracle, \<^verbatim>\<open>LiveSearch\<close> on the empty query
  returns no rows and no error, without querying. On a non-empty query it fails only when
  the query call fails or the engine rejects the query; otherwise its rows are, in order,
  those of the limited join sorted by the engine's rank, each with the snippet the engine
  builds with the markers \<^verbatim>\<open>>>>\<close> and \<^verbatim>\<open><<<\<close> and 15 tokens.
\<close>

theorem LiveSearch_contract:
  "LiveSearch eng flt [] limit s = Inr [] \<and>
   (q \<noteq> [] \<longrightarrow>
      (case LiveSearch eng flt q limit s of
         Inl err \<Rightarrow> flt QueryMatch \<or> \<not> fts_valid eng q
       | Inr rows \<Rightarrow>
           \<not> flt QueryMatch \<and> fts_valid eng q \<and>
           rows = map (\<lambda>(e, t, p).
                         \<lparr>l_path = path p, l_page_num = page_num p,
                            l_snippet = fts_snippet eng 2 ''>>>'' ''<<<'' '' ... '' 15 q t\<rparr>)
                    (live_matches eng q limit s) \<and>
           sorted (map (\<lambda>(e, t, p). fts_rank eng q (pdfs_fts s) e) (live_matches eng q limit s)) \<and>
           (0 \<le> limit \<longrightarrow> length rows \<le> nat limit) \<and>
           (\<forall>(e, t, p) \<in> set (live_matches eng q limit s).
               e \<in> set (pdfs_fts s) \<and> p \<in> set (pdfs s) \<and> content_idx e = Some t \<and>
               fts_match eng q t \<and> page_key p = entry_key e)))"
proof -
  have src: "\<forall>(e, t, p) \<in> set (live_matches eng q limit s).
               e \<in> set (pdfs_fts s) \<and> p \<in> set (pdfs s) \<and> content_idx e = Some t \<and>
               fts_match eng q t \<and> page_key p = entry_key e"
    using set_live_matches [of eng q limit s] match_join_iff [of _ _ _ eng q s] by blast
  have len: "0 \<le> limit \<longrightarrow> length (live_matches eng q limit s) \<le> nat limit"
    unfolding live_matches_def using length_sql_limit [of limit] by blast
  show ?thesis
    using src len sorted_live_matches [of eng q s limit]
    by (simp add: LiveSearch_def)
qed

theorem LiveSearch_contract_witness:
  "LiveSearch prefix_engine (\<lambda>c. True) [] 10 scenario_B = Inr [] \<and>
   ''baz'' \<noteq> [] \<and>
   LiveSearch prefix_engine no_faults ''baz'' 10 scenario_B =
     Inr [\<lparr>l_path = ''a.pdf'', l_page_num = 2, l_snippet = ''>>>baz qux<<<''\<rparr>]"
  using LiveSearch_contract [where eng = prefix_engine and flt = "\<lambda>c. True" and limit = 10
      and s = scenario_B and q = "''baz''"]
    LiveSearch_contract [where eng = prefix_engine and flt = no_faults and limit = 10
      and s = scenario_B and q = "''baz''"]
  by (simp add: LiveSearch_def live_matches_def match_join_def sql_limit_def prefix_engine_def
      no_faults_def scenario_B_def page_key_def entry_key_def)

section \<open>Rebuild\<close>




section \<open>Change detection and failure isolation\<close>

text \<open>
  Claim C3. For every file of the batch whose hash is computed and whose stored-hash query
  succeeds, and for every value of the force flag: \<^verbatim>\<open>checkHashes\<close> leaves the file out of the
  work list (unchanged) exactly when the flag is off and the fingerprint stored for its
  path, the one \<^verbatim>\<open>GetStoredHash\<close> reads, is the computed one; otherwise the file is in the
  work list, marked as needing an update, with the computed fingerprint and with the stored
  one (stale), which is the empty string when no page is stored for the path (new).
\<close>

theorem checkHashes_classification:
  "fl \<in> set pdfFiles \<Longrightarrow> HashFile env fl = Inr cur \<Longrightarrow> \<not> db_faults env fl QueryStoredHash \<Longrightarrow>
     (fl \<notin> Path ` set (checkHashes env forced s pdfFiles) \<longleftrightarrow>
        \<not> forced \<and> stored_fingerprint s fl = Some cur) \<and>
     (\<forall>x \<in> set (checkHashes env forced s pdfFiles). Path x = fl \<longrightarrow>
        CurrentHash x = cur \<and> NeedsUpdate x \<and>
        StoredHash x = (case stored_fingerprint s fl of None \<Rightarrow> [] | Some h \<Rightarrow> h))"
proof -
  assume fl: "fl \<in> set pdfFiles" and cur: "HashFile env fl = Inr cur"
    and nf: "\<not> db_faults env fl QueryStoredHash"
  let ?stored = "case stored_fingerprint s fl of None \<Rightarrow> [] | Some h \<Rightarrow> h"
  have st: "GetStoredHash (db_faults env fl) fl s = Inr ?stored"
    using nf by (rule GetStoredHash_stored_fingerprint)
  have ne: "cur \<noteq> []" using cur by (rule HashFile_nonempty)
  have sel: "fl \<in> Path ` set (checkHashes env forced s pdfFiles) \<longleftrightarrow> forced \<or> cur \<noteq> ?stored"
  proof
    assume "fl \<in> Path ` set (checkHashes env forced s pdfFiles)"
    then obtain x where "x \<in> set (checkHashes env forced s pdfFiles)" "Path x = fl" by auto
    then show "forced \<or> cur \<noteq> ?stored"
      unfolding checkHashes_set using cur st by auto
  next
    assume "forced \<or> cur \<noteq> ?stored"
    then have "\<lparr>Path = fl, CurrentHash = cur, StoredHash = ?stored, NeedsUpdate = True\<rparr>
                 \<in> set (checkHashes env forced s pdfFiles)"
      unfolding checkHashes_set using fl cur st by blast
    then show "fl \<in> Path ` set (checkHashes env forced s pdfFiles)" by force
  qed
  have eq: "cur = ?stored \<longleftrightarrow> stored_fingerprint s fl = Some cur"
    using ne by (cases "stored_fingerprint s fl") auto
  have fields: "CurrentHash x = cur \<and> NeedsUpdate x \<and> StoredHash x = ?stored"
    if "x \<in> set (checkHashes env forced s pdfFiles)" "Path x = fl" for x
    using that unfolding checkHashes_set using cur st by auto
  show ?thesis using sel eq fields by blast
qed

theorem checkHashes_classification_witness:
  "''a.pdf'' \<in> set [''a.pdf'', ''bad.pdf''] \<and>
   HashFile example_env ''a.pdf'' = Inr (EncodeToString 0) \<and>
   \<not> db_faults example_env ''a.pdf'' QueryStoredHash \<and>
   checkHashes example_env False scenario_B [''a.pdf'', ''bad.pdf''] =
     [\<lparr>Path = ''a.pdf'', CurrentHash = EncodeToString 0, StoredHash = ''h1'',
        NeedsUpdate = True\<rparr>]"
proof -
  have "length (EncodeToString 0) \<noteq> length ''h1''" by simp
  then have ne: "EncodeToString 0 \<noteq> ''h1''" by metis
  show ?thesis
    using ne checkHashes_classification [where fl = "''a.pdf''"
        and pdfFiles = "[''a.pdf'', ''bad.pdf'']" and env = example_env
        and cur = "EncodeToString 0" and forced = False and s = scenario_B]
    by (simp add: HashFile_def GetStoredHash_def stored_fingerprint_def example_env_def
        no_faults_def scenario_B_def)
qed



section \<open>Repeated scans\<close>

text \<open>
  Claim C4, as stated, fails on a document with no pages. In the example file system the
  first scan of \<open>empty.pdf\<close> without force selects it, processes it successfully (the count
  is 1) and leaves the store as it was; the repeated scan selects it again.
\<close>

theorem scan_idempotence_counterexample:
  "checkHashes example_env False fresh_store [''empty.pdf''] =
     [\<lparr>Path = ''empty.pdf'', CurrentHash = EncodeToString 0, StoredHash = [],
        NeedsUpdate = True\<rparr>] \<and>
   fst (processPDFs example_env (checkHashes example_env False fresh_store [''empty.pdf''])
          fresh_store) = (1, None) \<and>
   runScanCommand example_env False [''empty.pdf''] fresh_store = (None, fresh_store) \<and>
   checkHashes example_env False
       (snd (runScanCommand example_env False [''empty.pdf''] fresh_store)) [''empty.pdf''] =
     [\<lparr>Path = ''empty.pdf'', CurrentHash = EncodeToString 0, StoredHash = [],
        NeedsUpdate = True\<rparr>]"
proof -
  have c: "checkHashes example_env False fresh_store [''empty.pdf''] =
     [\<lparr>Path = ''empty.pdf'', CurrentHash = EncodeToString 0, StoredHash = [],
        NeedsUpdate = True\<rparr>]"
    by (simp add: HashFile_def GetStoredHash_def example_env_def no_faults_def fresh_store_def)
  have p: "processPDFs example_env
             [\<lparr>Path = ''empty.pdf'', CurrentHash = EncodeToString 0, StoredHash = [],
                NeedsUpdate = True\<rparr>] fresh_store
           = ((1, None), \<lparr>processedCount = 1, warnings = [], db = fresh_store\<rparr>)"
    by (simp add: processPDFs_def process_one_def ExtractPagesText_def example_env_def
        UpsertPDFData_def no_faults_def fresh_store_def delete_pages_def)
  have r: "runScanCommand example_env False [''empty.pdf''] fresh_store = (None, fresh_store)"
    by (simp only: runScanCommand_def c p Let_def) simp
  show ?thesis by (simp only: c p r snd_conv fst_conv simp_thms)
qed

text \<open>
  Claim C4, amended. For every document with at least one page: if its hash is computed,
  its stored-hash query, its extraction and its store transaction succeed, then after a
  scan without force over a batch that contains it, whatever happens to the other
  documents, \<^verbatim>\<open>GetStoredHash\<close> returns the fingerprint just computed and a repeated scan
  over the unchanged file system does not select the document. In particular, after
  \<^verbatim>\<open>UpsertPDFData\<close> succeeds on a non-empty page sequence, \<^verbatim>\<open>GetStoredHash\<close> returns the given
  fingerprint.
\<close>

theorem scan_idempotent:
  "fl \<in> set pdfFiles \<Longrightarrow> HashFile env fl = Inr cur \<Longrightarrow> \<not> db_faults env fl QueryStoredHash \<Longrightarrow>
   ExtractPagesText env fl = Inr pageContents \<Longrightarrow> pageContents \<noteq> [] \<Longrightarrow>
   \<not> upsert_fault (db_faults env fl) (length pageContents) \<Longrightarrow>
   s1 = snd (runScanCommand env False pdfFiles s) \<Longrightarrow>
     GetStoredHash (db_faults env fl) fl s1 = Inr cur \<and>
     fl \<notin> Path ` set (checkHashes env False s1 pdfFiles) \<and>
     (\<forall>flt now h s0. \<not> upsert_fault flt (length pageContents) \<longrightarrow>
        GetStoredHash (db_faults env fl) fl
          (snd (UpsertPDFData flt now fl h pageContents s0)) = Inr h)"
proof -
  assume fl: "fl \<in> set pdfFiles" and cur: "HashFile env fl = Inr cur"
    and nf: "\<not> db_faults env fl QueryStoredHash"
    and good: "ExtractPagesText env fl = Inr pageContents" "pageContents \<noteq> []"
      "\<not> upsert_fault (db_faults env fl) (length pageContents)"
    and s1: "s1 = snd (runScanCommand env False pdfFiles s)"
  let ?L = "checkHashes env False s pdfFiles"
  let ?st0 = "\<lparr>processedCount = 0, warnings = [], db = s\<rparr>"
  have s1': "s1 = db (fold (process_one env) ?L ?st0)"
    by (simp add: s1 runScanCommand_db)
  have ne: "cur \<noteq> []" using cur by (rule HashFile_nonempty)
  have entries: "\<forall>x \<in> set ?L. Path x = fl \<longrightarrow> CurrentHash x = cur"
    using checkHashes_CurrentHash [of _ env False s pdfFiles] cur by fastforce
  have q: "stored_fingerprint s1 fl = Some cur"
  proof (cases "fl \<in> Path ` set ?L")
    case True
    show ?thesis unfolding s1'
      by (rule stored_fingerprint_fold_established [OF good entries True])
  next
    case False
    have "\<lparr>Path = fl, CurrentHash = cur,
            StoredHash = (case stored_fingerprint s fl of None \<Rightarrow> [] | Some h \<Rightarrow> h),
            NeedsUpdate = True\<rparr> \<notin> set ?L"
      using False by force
    then have "cur = (case stored_fingerprint s fl of None \<Rightarrow> [] | Some h \<Rightarrow> h)"
      unfolding checkHashes_set
      using fl cur GetStoredHash_stored_fingerprint
        [where flt = "db_faults env fl" and fl = fl and s = s, OF nf] by blast
    then have "stored_fingerprint s fl = Some cur"
      using ne by (cases "stored_fingerprint s fl") simp_all
    then have "stored_fingerprint (db ?st0) fl = Some cur" by simp
    from stored_fingerprint_fold_preserved [OF good(1,2) entries this]
    show ?thesis unfolding s1' .
  qed
  have a: "GetStoredHash (db_faults env fl) fl s1 = Inr cur"
    using GetStoredHash_stored_fingerprint
      [where flt = "db_faults env fl" and fl = fl and s = s1, OF nf] q by simp
  have b: "fl \<notin> Path ` set (checkHashes env False s1 pdfFiles)"
  proof
    assume "fl \<in> Path ` set (checkHashes env False s1 pdfFiles)"
    then obtain x where "x \<in> set (checkHashes env False s1 pdfFiles)" "Path x = fl" by auto
    then show False unfolding checkHashes_set using cur a by auto
  qed
  have c: "GetStoredHash (db_faults env fl) fl
             (snd (UpsertPDFData flt now fl h pageContents s0)) = Inr h"
    if "\<not> upsert_fault flt (length pageContents)" for flt now h s0
  proof -
    from UpsertPDFData_ok [OF that, of now fl h s0] obtain s' where s':
      "UpsertPDFData flt now fl h pageContents s0 = (None, s')"
      "pdfs s' = filter (\<lambda>p. path p \<noteq> fl) (pdfs s0) @ new_pages now fl h 0 pageContents"
      by blast
    have "stored_fingerprint s' fl = Some h"
      using stored_fingerprint_same [OF s'(2)] good(2) by simp
    then show ?thesis
      using GetStoredHash_stored_fingerprint
        [where flt = "db_faults env fl" and fl = fl and s = s', OF nf] by (simp add: s'(1))
  qed
  show ?thesis using a b c by blast
qed

theorem scan_idempotent_witness:
  "runScanCommand example_env False [''broken.pdf'', ''a.pdf'', ''locked.pdf''] fresh_store
     = (None, snd (UpsertPDFData no_faults (\<lambda>i. 1) ''a.pdf'' (EncodeToString 0)
                     [''foo bar'', ''baz qux''] fresh_store)) \<and>
   GetStoredHash no_faults ''a.pdf''
       (snd (runScanCommand example_env False [''broken.pdf'', ''a.pdf'', ''locked.pdf'']
               fresh_store))
     = Inr (EncodeToString 0) \<and>
   map Path (checkHashes example_env False
       (snd (runScanCommand example_env False [''broken.pdf'', ''a.pdf'', ''locked.pdf'']
               fresh_store))
       [''broken.pdf'', ''a.pdf'', ''locked.pdf''])
     = [''broken.pdf'', ''locked.pdf'']"
proof -
  have h: "HashFile example_env ''a.pdf'' = Inr (EncodeToString 0)"
    "\<not> db_faults example_env ''a.pdf'' QueryStoredHash"
    "ExtractPagesText example_env ''a.pdf'' = Inr [''foo bar'', ''baz qux'']"
    "\<not> upsert_fault (db_faults example_env ''a.pdf'') (length [''foo bar'', ''baz qux''])"
    by (simp_all add: HashFile_def ExtractPagesText_def example_env_def no_faults_def
        upsert_fault_def)
  have r: "runScanCommand example_env False [''broken.pdf'', ''a.pdf'', ''locked.pdf'']
             fresh_store
           = (None, snd (UpsertPDFData no_faults (\<lambda>i. 1) ''a.pdf'' (EncodeToString 0)
                     [''foo bar'', ''baz qux''] fresh_store))"
    by (simp add: runScanCommand_def processPDFs_def process_one_def HashFile_def
        GetStoredHash_def ExtractPagesText_def example_env_def UpsertPDFData_def no_faults_def
        fresh_store_def delete_pages_def fire_after_delete_def insert_page_def
        fire_after_insert_def page_key_def entry_key_def)
  from scan_idempotent [OF _ h(1-3) _ h(4) refl, of "[''broken.pdf'', ''a.pdf'', ''locked.pdf'']"
      fresh_store]
  have g: "GetStoredHash (db_faults example_env ''a.pdf'') ''a.pdf''
       (snd (runScanCommand example_env False [''broken.pdf'', ''a.pdf'', ''locked.pdf'']
               fresh_store))
     = Inr (EncodeToString 0)"
    by simp
  have "db_faults example_env ''a.pdf'' = no_faults" by (simp add: example_env_def)
  with g have g': "GetStoredHash no_faults ''a.pdf''
       (snd (runScanCommand example_env False [''broken.pdf'', ''a.pdf'', ''locked.pdf'']
               fresh_store))
     = Inr (EncodeToString 0)"
    by simp
  have c: "map Path (checkHashes example_env False
       (snd (UpsertPDFData no_faults (\<lambda>i. 1) ''a.pdf'' (EncodeToString 0)
                     [''foo bar'', ''baz qux''] fresh_store))
       [''broken.pdf'', ''a.pdf'', ''locked.pdf''])
     = [''broken.pdf'', ''locked.pdf'']"
    by (simp add: HashFile_def GetStoredHash_def example_env_def UpsertPDFData_def no_faults_def
        fresh_store_def delete_pages_def fire_after_delete_def insert_page_def
        fire_after_insert_def page_key_def entry_key_def)
  show ?thesis using g' c by (simp only: r snd_conv)
qed

text \<open>
  Claim C10. The extractor returns the empty sequence for a document with no pages. On a
  store that is in sync and has its triggers, \<^verbatim>\<open>UpsertPDFData\<close> with the empty sequence
  succeeds unless a driver call fails, and leaves no page and no index entry for the path;
  \<^verbatim>\<open>GetStoredHash\<close> then returns the empty string, so a scan without force selects the
  document again, as new; and storing it again leaves the store as it is, so this repeats
  on every later scan.
\<close>

theorem empty_page_set_reprocessed:
  "triggers_installed s \<Longrightarrow> in_sync s \<Longrightarrow> \<not> upsert_fault flt 0 \<Longrightarrow>
   s' = snd (UpsertPDFData flt now fp h [] s) \<Longrightarrow>
     fst (UpsertPDFData flt now fp h [] s) = None \<and>
     filter (\<lambda>p. path p = fp) (pdfs s') = [] \<and>
     filter (\<lambda>e. fts_path e = fp) (pdfs_fts s') = [] \<and>
     GetStoredHash no_faults fp s' = Inr [] \<and>
     (open_doc env fp = Inr [] \<longrightarrow> ExtractPagesText env fp = Inr []) \<and>
     (HashFile env fp = Inr cur \<and> \<not> db_faults env fp QueryStoredHash \<longrightarrow>
        checkHashes env False s' [fp] =
          [\<lparr>Path = fp, CurrentHash = cur, StoredHash = [], NeedsUpdate = True\<rparr>]) \<and>
     UpsertPDFData flt now' fp h' [] s' = (None, s')"
proof -
  assume t: "triggers_installed s" and sync: "in_sync s" and nf: "\<not> upsert_fault flt 0"
    and s': "s' = snd (UpsertPDFData flt now fp h [] s)"
  have nf': "\<not> upsert_fault flt (length ([]::string list))" using nf by simp
  from UpsertPDFData_ok [OF nf', of now fp h s] obtain t' where t':
    "UpsertPDFData flt now fp h [] s = (None, t')"
    "pdfs t' = filter (\<lambda>p. path p \<noteq> fp) (pdfs s) @ new_pages now fp h 0 []"
    "pdfs_fts t' = (if pdfs_after_insert s
                    then pdfs_fts (delete_pages fp s) @ map entry_of (new_pages now fp h 0 [])
                    else pdfs_fts (delete_pages fp s))"
    by blast
  have st: "s' = t'" by (simp add: s' t'(1))
  have pd: "pdfs s' = filter (\<lambda>p. path p \<noteq> fp) (pdfs s)" by (simp add: st t'(2))
  have del: "pdfs_after_delete s" using t by (simp add: triggers_installed_def)
  have ft: "pdfs_fts s' = filter (\<lambda>e. entry_key e \<notin> page_key ` {p \<in> set (pdfs s). path p = fp})
                            (pdfs_fts s)"
    using del by (simp add: st t'(3) fts_delete_pages)
  have a: "filter (\<lambda>p. path p = fp) (pdfs s') = []"
    by (simp add: pd filter_empty_conv)
  have owner: "entry_key e \<in> page_key ` {p \<in> set (pdfs s). path p = fp}"
    if "e \<in> set (pdfs_fts s)" "fts_path e = fp" for e
  proof -
    from sync that(1) have "length (filter (\<lambda>p. page_key p = entry_key e) (pdfs s)) = 1"
      unfolding in_sync_def list_all_iff by blast
    from filter_length_one_ex [OF this] obtain p where
      p: "p \<in> set (pdfs s)" "page_key p = entry_key e" by blast
    then have "path p = fp" using that(2) by (simp add: page_key_def entry_key_def)
    then show ?thesis using p by force
  qed
  have b: "filter (\<lambda>e. fts_path e = fp) (pdfs_fts s') = []"
    unfolding ft filter_empty_conv using owner by auto
  have c: "GetStoredHash no_faults fp s' = Inr []"
    by (simp add: GetStoredHash_def no_faults_def a)
  have d: "ExtractPagesText env fp = Inr []" if "open_doc env fp = Inr []"
    using that by (simp add: ExtractPagesText_def)
  have e: "checkHashes env False s' [fp] =
             [\<lparr>Path = fp, CurrentHash = cur, StoredHash = [], NeedsUpdate = True\<rparr>]"
    if "HashFile env fp = Inr cur" "\<not> db_faults env fp QueryStoredHash"
    using that HashFile_nonempty [OF that(1)] by (simp add: GetStoredHash_def a)
  have same_p: "filter (\<lambda>p. path p \<noteq> fp) (pdfs s') = pdfs s'"
    by (simp add: pd)
  have none: "{p \<in> set (pdfs s'). path p = fp} = {}"
    by (auto simp: pd)
  have f: "UpsertPDFData flt now' fp h' [] s' = (None, s')"
  proof -
    have nb: "\<not> flt Begin" "\<not> flt ExecDelete" "\<not> flt PrepareInsert" "\<not> flt Commit"
      using nf by (simp_all add: upsert_fault_iff)
    have "filter (\<lambda>p. path p = fp) (pdfs s') = []" by (rule a)
    then have "delete_pages fp s' = s'\<lparr>pdfs := pdfs s'\<rparr>"
      by (simp add: delete_pages_def same_p)
    then have "delete_pages fp s' = s'" by simp
    then show ?thesis using nb by (simp add: UpsertPDFData_def)
  qed
  show ?thesis using a b c d e f by (simp add: t'(1))
qed

theorem empty_page_set_reprocessed_witness:
  "triggers_installed scenario_B \<and> in_sync scenario_B \<and> \<not> upsert_fault no_faults 0 \<and>
   UpsertPDFData no_faults (\<lambda>i. 2) ''a.pdf'' ''h2'' [] scenario_B = (None, fresh_store) \<and>
   GetStoredHash no_faults ''a.pdf'' fresh_store = Inr [] \<and>
   checkHashes example_env False fresh_store [''a.pdf''] =
     [\<lparr>Path = ''a.pdf'', CurrentHash = EncodeToString 0, StoredHash = [],
        NeedsUpdate = True\<rparr>]"
proof -
  have h: "triggers_installed scenario_B" "in_sync scenario_B" "\<not> upsert_fault no_faults 0"
    by (simp_all add: triggers_installed_def in_sync_def scenario_B_def page_key_def
        entry_key_def upsert_fault_def no_faults_def)
  have u: "UpsertPDFData no_faults (\<lambda>i. 2) ''a.pdf'' ''h2'' [] scenario_B = (None, fresh_store)"
    by (simp add: UpsertPDFData_def no_faults_def scenario_B_def fresh_store_def
        delete_pages_def fire_after_delete_def page_key_def entry_key_def)
  have e: "HashFile example_env ''a.pdf'' = Inr (EncodeToString 0)
             \<and> \<not> db_faults example_env ''a.pdf'' QueryStoredHash"
    by (simp add: HashFile_def example_env_def no_faults_def)
  from empty_page_set_reprocessed [OF h, where s' = fresh_store and now = "\<lambda>i. 2"
      and fp = "''a.pdf''" and h = "''h2''" and env = example_env and cur = "EncodeToString 0"]
  have "GetStoredHash no_faults ''a.pdf'' fresh_store = Inr [] \<and>
        checkHashes example_env False fresh_store [''a.pdf''] =
          [\<lparr>Path = ''a.pdf'', CurrentHash = EncodeToString 0, StoredHash = [],
             NeedsUpdate = True\<rparr>]"
    using u e by simp
  then show ?thesis using h u by simp
qed

end
